theory Spec2Isabelle
  imports Complex_Main "HOL-Library.Tree" "HOL-Library.Multiset"
begin

section \<open>Object store and exceptions\<close>

text \<open>
  The Python sources build the search tree from \<^verbatim>\<open>TreeObject\<close> instances that point at each
  other (\<^verbatim>\<open>left_child\<close>, \<^verbatim>\<open>right_child\<close>, \<^verbatim>\<open>parent\<close>) and are mutated in place, also
  after they have been unlinked.  The embedding therefore keeps the node objects of one
  \<^verbatim>\<open>AvlTree\<close> in an explicit store: a reference is the number under which the object was
  created, \<^verbatim>\<open>None\<close> is \<open>None\<close>, and every assignment of the source is one update of the store.

  An exception is a value \<open>Inl e\<close>.  Recursion along the links carries a budget equal to the
  number of objects created so far: a chain of calls that visits more nodes than exist has
  entered a cycle of links, where Python ends with \<^verbatim>\<open>RecursionError\<close>.
\<close>

datatype error = AttributeError | TypeError | IndexError | RecursionError

type_synonym ref = nat

record ('k, 'v) TreeObject =
  key :: 'k
  val :: 'v
  left_child :: "ref option"
  right_child :: "ref option"
  parent :: "ref option"
  comparator :: "('k \<Rightarrow> 'k \<Rightarrow> bool) option"
  equals :: "('k \<Rightarrow> 'k \<Rightarrow> bool) option"

text \<open>
  \<open>root_node\<close> is the attribute \<^verbatim>\<open>root\<close>; \<open>tree_comparator\<close> and \<open>tree_equals\<close> are the
  attributes \<^verbatim>\<open>comparator\<close> and \<^verbatim>\<open>equals\<close> of the \<^verbatim>\<open>AvlTree\<close> object, \<open>objs\<close> holds its
  node objects and \<open>count\<close> is the number of objects created.  The attribute \<^verbatim>\<open>tree\<close> of a
  node is the tree whose store holds it.
\<close>

record ('k, 'v) AvlTree =
  root_node :: "ref option"
  objs :: "ref \<Rightarrow> ('k, 'v) TreeObject"
  count :: nat
  tree_comparator :: "'k \<Rightarrow> 'k \<Rightarrow> bool"
  tree_equals :: "'k \<Rightarrow> 'k \<Rightarrow> bool"

definition set_left_child :: "('k, 'v) AvlTree \<Rightarrow> ref \<Rightarrow> ref option \<Rightarrow> ('k, 'v) AvlTree" where
  "set_left_child t r c = t\<lparr>objs := (objs t)(r := (objs t r)\<lparr>left_child := c\<rparr>)\<rparr>"

definition set_right_child :: "('k, 'v) AvlTree \<Rightarrow> ref \<Rightarrow> ref option \<Rightarrow> ('k, 'v) AvlTree" where
  "set_right_child t r c = t\<lparr>objs := (objs t)(r := (objs t r)\<lparr>right_child := c\<rparr>)\<rparr>"

definition set_parent :: "('k, 'v) AvlTree \<Rightarrow> ref \<Rightarrow> ref option \<Rightarrow> ('k, 'v) AvlTree" where
  "set_parent t r c = t\<lparr>objs := (objs t)(r := (objs t r)\<lparr>parent := c\<rparr>)\<rparr>"

text \<open>Calling the attribute \<^verbatim>\<open>comparator\<close> or \<^verbatim>\<open>equals\<close> of a node: \<^verbatim>\<open>None\<close> is not callable.\<close>

definition call_key :: "('k \<Rightarrow> 'k \<Rightarrow> bool) option \<Rightarrow> 'k \<Rightarrow> 'k \<Rightarrow> error + bool" where
  "call_key f key1 key2 = (case f of None \<Rightarrow> Inl TypeError | Some g \<Rightarrow> Inr (g key1 key2))"

text \<open>\<^verbatim>\<open>TreeObject.__init__\<close>: a new object without links.\<close>

definition TreeObject_init ::
  "('k, 'v) AvlTree \<Rightarrow> 'k \<Rightarrow> 'v \<Rightarrow> ('k \<Rightarrow> 'k \<Rightarrow> bool) option \<Rightarrow> ('k \<Rightarrow> 'k \<Rightarrow> bool) option
    \<Rightarrow> ref \<times> ('k, 'v) AvlTree" where
  "TreeObject_init t k v c e =
     (count t,
      t\<lparr>objs := (objs t)(count t :=
           \<lparr>key = k, val = v, left_child = None, right_child = None, parent = None,
            comparator = c, equals = e\<rparr>),
        count := Suc (count t)\<rparr>)"

section \<open>TreeObject: heights and rotations\<close>

fun height_left :: "nat \<Rightarrow> ('k, 'v) AvlTree \<Rightarrow> ref \<Rightarrow> error + int"
  and height_right :: "nat \<Rightarrow> ('k, 'v) AvlTree \<Rightarrow> ref \<Rightarrow> error + int"
  and check_height :: "nat \<Rightarrow> ('k, 'v) AvlTree \<Rightarrow> ref \<Rightarrow> error + int" where
  "height_left n t self =
     (case left_child (objs t self) of
        None \<Rightarrow> Inr 0
      | Some l \<Rightarrow> (case check_height n t l of Inl e \<Rightarrow> Inl e | Inr h \<Rightarrow> Inr (1 + h)))"
| "height_right n t self =
     (case right_child (objs t self) of
        None \<Rightarrow> Inr 0
      | Some r \<Rightarrow> (case check_height n t r of Inl e \<Rightarrow> Inl e | Inr h \<Rightarrow> Inr (1 + h)))"
| "check_height 0 t self = Inl RecursionError"
| "check_height (Suc n) t self =
     (case height_left n t self of
        Inl e \<Rightarrow> Inl e
      | Inr hl \<Rightarrow> (case height_right n t self of Inl e \<Rightarrow> Inl e | Inr hr \<Rightarrow> Inr (max hl hr)))"

text \<open>\<^verbatim>\<open>check_balance\<close>: \<^verbatim>\<open>self.height_right() - self.height_left()\<close>, the right height first.\<close>

definition check_balance :: "('k, 'v) AvlTree \<Rightarrow> ref \<Rightarrow> error + int" where
  "check_balance t self =
     (case height_right (count t) t self of
        Inl e \<Rightarrow> Inl e
      | Inr hr \<Rightarrow> (case height_left (count t) t self of Inl e \<Rightarrow> Inl e | Inr hl \<Rightarrow> Inr (hr - hl)))"

definition simple_rot_right :: "('k, 'v) AvlTree \<Rightarrow> ref \<Rightarrow> error + ('k, 'v) AvlTree" where
  "simple_rot_right t self =
     (case left_child (objs t self) of
        None \<Rightarrow> Inl AttributeError
      | Some l \<Rightarrow>
          let p = parent (objs t self);
              t1 = (if p = None then t\<lparr>root_node := Some l\<rparr> else t);
              new_left = right_child (objs t1 l);
              t2 = set_parent t1 l p;
              t3 = (case p of
                      None \<Rightarrow> t2
                    | Some q \<Rightarrow>
                        if right_child (objs t2 q) = Some self then set_right_child t2 q (Some l)
                        else set_left_child t2 q (Some l));
              t4 = set_right_child t3 l (Some self);
              t5 = set_parent t4 self (Some l);
              t6 = set_left_child t5 self new_left;
              t7 = (case new_left of None \<Rightarrow> t6 | Some c \<Rightarrow> set_parent t6 c (Some self))
          in Inr t7)"

definition simple_rot_left :: "('k, 'v) AvlTree \<Rightarrow> ref \<Rightarrow> error + ('k, 'v) AvlTree" where
  "simple_rot_left t self =
     (case right_child (objs t self) of
        None \<Rightarrow> Inl AttributeError
      | Some r \<Rightarrow>
          let p = parent (objs t self);
              t1 = (if p = None then t\<lparr>root_node := Some r\<rparr> else t);
              new_right = left_child (objs t1 r);
              t2 = set_parent t1 r p;
              t3 = (case p of
                      None \<Rightarrow> t2
                    | Some q \<Rightarrow>
                        if right_child (objs t2 q) = Some self then set_right_child t2 q (Some r)
                        else set_left_child t2 q (Some r));
              t4 = set_left_child t3 r (Some self);
              t5 = set_parent t4 self (Some r);
              t6 = set_right_child t5 self new_right;
              t7 = (case new_right of None \<Rightarrow> t6 | Some c \<Rightarrow> set_parent t6 c (Some self))
          in Inr t7)"

text \<open>
  The last lines of \<^verbatim>\<open>insert\<close>, \<^verbatim>\<open>remove\<close> and \<^verbatim>\<open>remove_pair\<close>: the balance is read once,
  then a right rotation below \<open>-1\<close>, a left rotation above \<open>1\<close>.
\<close>

definition rebalance :: "('k, 'v) AvlTree \<Rightarrow> ref \<Rightarrow> error + ('k, 'v) AvlTree" where
  "rebalance t self =
     (case check_balance t self of
        Inl e \<Rightarrow> Inl e
      | Inr balance \<Rightarrow>
          if balance < - 1 then simple_rot_right t self
          else if balance > 1 then simple_rot_left t self
          else Inr t)"

section \<open>TreeObject: insertion\<close>

text \<open>
  \<^verbatim>\<open>TreeObject.insert\<close>.  The test \<^verbatim>\<open>equals\<close> is made only after \<^verbatim>\<open>comparator\<close> has
  answered \<^verbatim>\<open>True\<close>; there an identical value returns at once (before the balance is
  looked at), a different value inserts nothing.  \<^verbatim>\<open>obj.value is self.value\<close> is equality of
  the stored values, which stand for the objects they name.
\<close>

fun TreeObject_insert :: "nat \<Rightarrow> ('k, 'v) AvlTree \<Rightarrow> ref \<Rightarrow> ref \<Rightarrow> error + ('k, 'v) AvlTree" where
  "TreeObject_insert 0 t self obj = Inl RecursionError"
| "TreeObject_insert (Suc n) t self obj =
     (case call_key (comparator (objs t self)) (key (objs t obj)) (key (objs t self)) of
        Inl e \<Rightarrow> Inl e
      | Inr True \<Rightarrow>
          (case call_key (equals (objs t self)) (key (objs t obj)) (key (objs t self)) of
             Inl e \<Rightarrow> Inl e
           | Inr True \<Rightarrow>
               if val (objs t obj) = val (objs t self) then Inr t else rebalance t self
           | Inr False \<Rightarrow>
               (case left_child (objs t self) of
                  None \<Rightarrow> rebalance (set_parent (set_left_child t self (Some obj)) obj (Some self)) self
                | Some l \<Rightarrow>
                    (case TreeObject_insert n t l obj of
                       Inl e \<Rightarrow> Inl e
                     | Inr t1 \<Rightarrow> rebalance t1 self)))
      | Inr False \<Rightarrow>
          (case right_child (objs t self) of
             None \<Rightarrow> rebalance (set_parent (set_right_child t self (Some obj)) obj (Some self)) self
           | Some r \<Rightarrow>
               (case TreeObject_insert n t r obj of
                  Inl e \<Rightarrow> Inl e
                | Inr t1 \<Rightarrow> rebalance t1 self)))"

section \<open>TreeObject: removal\<close>

fun find_rightmost :: "nat \<Rightarrow> ('k, 'v) AvlTree \<Rightarrow> ref \<Rightarrow> error + ref" where
  "find_rightmost 0 t self = Inl RecursionError"
| "find_rightmost (Suc n) t self =
     (case right_child (objs t self) of None \<Rightarrow> Inr self | Some r \<Rightarrow> find_rightmost n t r)"

fun find_leftmost :: "nat \<Rightarrow> ('k, 'v) AvlTree \<Rightarrow> ref \<Rightarrow> error + ref" where
  "find_leftmost 0 t self = Inl RecursionError"
| "find_leftmost (Suc n) t self =
     (case left_child (objs t self) of None \<Rightarrow> Inr self | Some l \<Rightarrow> find_leftmost n t l)"

definition substitute_right :: "('k, 'v) AvlTree \<Rightarrow> ref \<Rightarrow> error + ('k, 'v) AvlTree" where
  "substitute_right t self =
     (case parent (objs t self) of
        None \<Rightarrow> Inl AttributeError
      | Some p \<Rightarrow>
          if right_child (objs t p) = Some self then
            (case left_child (objs t self) of
               Some l \<Rightarrow> Inr (set_right_child (set_parent t l (Some p)) p (Some l))
             | None \<Rightarrow> Inr (set_right_child t p None))
          else Inr t)"

definition substitute_left :: "('k, 'v) AvlTree \<Rightarrow> ref \<Rightarrow> error + ('k, 'v) AvlTree" where
  "substitute_left t self =
     (case parent (objs t self) of
        None \<Rightarrow> Inl AttributeError
      | Some p \<Rightarrow>
          if left_child (objs t p) = Some self then
            (case right_child (objs t self) of
               Some r \<Rightarrow> Inr (set_left_child (set_parent t r (Some p)) p (Some r))
             | None \<Rightarrow> Inr (set_left_child t p None))
          else Inr t)"

text \<open>
  \<^verbatim>\<open>replace_self\<close>, statement by statement.  The children are compared with the substitute
  by \<^verbatim>\<open>key !=\<close> (on \<^verbatim>\<open>None\<close> as substitute the attribute \<^verbatim>\<open>key\<close> does not exist), the last
  \<^verbatim>\<open>if\<close> reads \<^verbatim>\<open>self.parent.left_child.key\<close> before it calls \<^verbatim>\<open>equals\<close>.
\<close>

definition replace_self :: "('k, 'v) AvlTree \<Rightarrow> ref \<Rightarrow> ref option \<Rightarrow> error + ('k, 'v) AvlTree" where
  "replace_self t self substitute =
     (let t1 = (case substitute of None \<Rightarrow> t | Some s \<Rightarrow> set_parent t s (parent (objs t self)));
          t2 = (if parent (objs t1 self) = None then t1\<lparr>root_node := substitute\<rparr> else t1)
      in
      (case (case left_child (objs t2 self) of
               None \<Rightarrow> Inr t2
             | Some l \<Rightarrow>
                 (case substitute of
                    None \<Rightarrow> Inl AttributeError
                  | Some s \<Rightarrow>
                      if key (objs t2 l) \<noteq> key (objs t2 s)
                      then Inr (set_parent (set_left_child t2 s (Some l)) l (Some s))
                      else Inr t2)) of
         Inl e \<Rightarrow> Inl e
       | Inr t3 \<Rightarrow>
      (case (case right_child (objs t3 self) of
               None \<Rightarrow> Inr t3
             | Some r \<Rightarrow>
                 (case substitute of
                    None \<Rightarrow> Inl AttributeError
                  | Some s \<Rightarrow>
                      if key (objs t3 r) \<noteq> key (objs t3 s)
                      then Inr (set_parent (set_right_child t3 s (Some r)) r (Some s))
                      else Inr t3)) of
         Inl e \<Rightarrow> Inl e
       | Inr t4 \<Rightarrow>
      (case parent (objs t4 self) of
         None \<Rightarrow> Inr t4
       | Some p \<Rightarrow>
           (case (if left_child (objs t4 self) = None then Inr False
                  else (case left_child (objs t4 p) of
                          None \<Rightarrow> Inl AttributeError
                        | Some pl \<Rightarrow>
                            call_key (equals (objs t4 self)) (key (objs t4 pl)) (key (objs t4 self)))) of
              Inl e \<Rightarrow> Inl e
            | Inr c \<Rightarrow>
                if c then Inr (set_left_child t4 p substitute)
                else if right_child (objs t4 p) = Some self then Inr (set_right_child t4 p substitute)
                else Inr (set_left_child t4 p substitute))))))"

text \<open>
  The branch of \<^verbatim>\<open>remove\<close> and of \<^verbatim>\<open>remove_pair\<close> that unlinks the node \<^verbatim>\<open>self\<close> (the two
  methods repeat it word for word).
\<close>

definition unlink :: "('k, 'v) AvlTree \<Rightarrow> ref \<Rightarrow> error + ('k, 'v) AvlTree" where
  "unlink t self =
     (if right_child (objs t self) = None \<and> left_child (objs t self) = None then
        (if parent (objs t self) = None then Inr (t\<lparr>root_node := None\<rparr>)
         else replace_self t self None)
      else
        (case left_child (objs t self) of
           Some l \<Rightarrow>
             (case find_rightmost (count t) t l of
                Inl e \<Rightarrow> Inl e
              | Inr substitute \<Rightarrow>
                  (case substitute_right t substitute of
                     Inl e \<Rightarrow> Inl e
                   | Inr t1 \<Rightarrow> replace_self t1 self (Some substitute)))
         | None \<Rightarrow>
             (case right_child (objs t self) of
                None \<Rightarrow> Inl AttributeError
              | Some r \<Rightarrow>
                  (case find_leftmost (count t) t r of
                     Inl e \<Rightarrow> Inl e
                   | Inr substitute \<Rightarrow>
                       (case substitute_left t substitute of
                          Inl e \<Rightarrow> Inl e
                        | Inr t1 \<Rightarrow> replace_self t1 self (Some substitute))))))"

text \<open>
  \<^verbatim>\<open>TreeObject.remove\<close>.  The descent asks \<^verbatim>\<open>comparator(key1=self.key, key2=key)\<close> and goes
  to the left child on \<^verbatim>\<open>True\<close>; the balance is then read on \<^verbatim>\<open>self\<close>, unlinked or not.
\<close>

fun TreeObject_remove :: "nat \<Rightarrow> ('k, 'v) AvlTree \<Rightarrow> ref \<Rightarrow> 'k \<Rightarrow> error + ('k, 'v) AvlTree" where
  "TreeObject_remove 0 t self k = Inl RecursionError"
| "TreeObject_remove (Suc n) t self k =
     (case call_key (equals (objs t self)) (key (objs t self)) k of
        Inl e \<Rightarrow> Inl e
      | Inr True \<Rightarrow> (case unlink t self of Inl e \<Rightarrow> Inl e | Inr t1 \<Rightarrow> rebalance t1 self)
      | Inr False \<Rightarrow>
          (case call_key (comparator (objs t self)) (key (objs t self)) k of
             Inl e \<Rightarrow> Inl e
           | Inr True \<Rightarrow>
               (case left_child (objs t self) of
                  None \<Rightarrow> rebalance t self
                | Some l \<Rightarrow>
                    (case TreeObject_remove n t l k of
                       Inl e \<Rightarrow> Inl e
                     | Inr t1 \<Rightarrow> rebalance t1 self))
           | Inr False \<Rightarrow>
               (case right_child (objs t self) of
                  None \<Rightarrow> rebalance t self
                | Some r \<Rightarrow>
                    (case TreeObject_remove n t r k of
                       Inl e \<Rightarrow> Inl e
                     | Inr t1 \<Rightarrow> rebalance t1 self))))"

text \<open>
  \<^verbatim>\<open>TreeObject.remove_pair\<close>: the value is compared on \<^verbatim>\<open>self\<close> only; below \<^verbatim>\<open>self\<close> the
  source calls \<^verbatim>\<open>remove(key)\<close>.
\<close>

definition TreeObject_remove_pair ::
  "('k, 'v) AvlTree \<Rightarrow> ref \<Rightarrow> 'k \<Rightarrow> 'v \<Rightarrow> error + ('k, 'v) AvlTree" where
  "TreeObject_remove_pair t self k v =
     (case call_key (equals (objs t self)) (key (objs t self)) k of
        Inl e \<Rightarrow> Inl e
      | Inr eq \<Rightarrow>
          if eq \<and> val (objs t self) = v then
            (case unlink t self of Inl e \<Rightarrow> Inl e | Inr t1 \<Rightarrow> rebalance t1 self)
          else
            (case call_key (comparator (objs t self)) (key (objs t self)) k of
               Inl e \<Rightarrow> Inl e
             | Inr True \<Rightarrow>
                 (case left_child (objs t self) of
                    None \<Rightarrow> rebalance t self
                  | Some l \<Rightarrow>
                      (case TreeObject_remove (count t) t l k of
                         Inl e \<Rightarrow> Inl e
                       | Inr t1 \<Rightarrow> rebalance t1 self))
             | Inr False \<Rightarrow>
                 (case right_child (objs t self) of
                    None \<Rightarrow> rebalance t self
                  | Some r \<Rightarrow>
                      (case TreeObject_remove (count t) t r k of
                         Inl e \<Rightarrow> Inl e
                       | Inr t1 \<Rightarrow> rebalance t1 self))))"

section \<open>TreeObject: minimum, neighbours, membership\<close>

fun TreeObject_pop_lowest :: "nat \<Rightarrow> ('k, 'v) AvlTree \<Rightarrow> ref \<Rightarrow> error + 'v \<times> ('k, 'v) AvlTree" where
  "TreeObject_pop_lowest 0 t self = Inl RecursionError"
| "TreeObject_pop_lowest (Suc n) t self =
     (case left_child (objs t self) of
        None \<Rightarrow>
          let t1 = (case parent (objs t self) of
                      Some p \<Rightarrow> set_left_child t p (right_child (objs t self))
                    | None \<Rightarrow> t\<lparr>root_node := right_child (objs t self)\<rparr>);
              t2 = (case right_child (objs t1 self) of
                      Some r \<Rightarrow> set_parent t1 r (parent (objs t1 self))
                    | None \<Rightarrow> t1)
          in Inr (val (objs t2 self), t2)
      | Some l \<Rightarrow> TreeObject_pop_lowest n t l)"

text \<open>
  The neighbour searches return a node or \<^verbatim>\<open>None\<close>.  \<open>neighbor_left_here\<close> and
  \<open>neighbor_right_here\<close> are the arm taken on the node that matches, which the key searches
  and the searches by pair repeat word for word; a path through it that reaches no
  \<^verbatim>\<open>return\<close> falls through to the final \<^verbatim>\<open>return None\<close>.  In the source the third arm of
  the \<^verbatim>\<open>if\<close> chain repeats the call of \<^verbatim>\<open>comparator\<close> negated, so it is the \<open>False\<close> case
  here.
\<close>

definition neighbor_left_here :: "('k, 'v) AvlTree \<Rightarrow> ref \<Rightarrow> error + ref option" where
  "neighbor_left_here t self =
     (case left_child (objs t self) of
        Some l \<Rightarrow> (case find_rightmost (count t) t l of Inl e \<Rightarrow> Inl e | Inr r \<Rightarrow> Inr (Some r))
      | None \<Rightarrow>
          (case parent (objs t self) of
             None \<Rightarrow> Inr None
           | Some p \<Rightarrow>
               if right_child (objs t p) = Some self then Inr (Some p)
               else if left_child (objs t p) = Some self then
                 (case parent (objs t p) of
                    None \<Rightarrow> Inr None
                  | Some g \<Rightarrow> if right_child (objs t g) = Some p then Inr (Some g) else Inr None)
               else Inr None))"

definition neighbor_right_here :: "('k, 'v) AvlTree \<Rightarrow> ref \<Rightarrow> error + ref option" where
  "neighbor_right_here t self =
     (case right_child (objs t self) of
        Some r \<Rightarrow> (case find_leftmost (count t) t r of Inl e \<Rightarrow> Inl e | Inr l \<Rightarrow> Inr (Some l))
      | None \<Rightarrow>
          (case parent (objs t self) of
             None \<Rightarrow> Inr None
           | Some p \<Rightarrow>
               if left_child (objs t p) = Some self then Inr (Some p)
               else if right_child (objs t p) = Some self then
                 (case parent (objs t p) of
                    None \<Rightarrow> Inr None
                  | Some g \<Rightarrow> if left_child (objs t g) = Some p then Inr (Some g) else Inr None)
               else Inr None))"

fun find_left_neighbor :: "nat \<Rightarrow> ('k, 'v) AvlTree \<Rightarrow> ref \<Rightarrow> 'k \<Rightarrow> error + ref option" where
  "find_left_neighbor 0 t self k = Inl RecursionError"
| "find_left_neighbor (Suc n) t self k =
     (case call_key (equals (objs t self)) k (key (objs t self)) of
        Inl e \<Rightarrow> Inl e
      | Inr True \<Rightarrow> neighbor_left_here t self
      | Inr False \<Rightarrow>
          (case call_key (comparator (objs t self)) k (key (objs t self)) of
             Inl e \<Rightarrow> Inl e
           | Inr True \<Rightarrow>
               (case left_child (objs t self) of
                  None \<Rightarrow> Inr None
                | Some l \<Rightarrow> find_left_neighbor n t l k)
           | Inr False \<Rightarrow>
               (case right_child (objs t self) of
                  None \<Rightarrow> Inr None
                | Some r \<Rightarrow> find_left_neighbor n t r k)))"

fun find_right_neighbor :: "nat \<Rightarrow> ('k, 'v) AvlTree \<Rightarrow> ref \<Rightarrow> 'k \<Rightarrow> error + ref option" where
  "find_right_neighbor 0 t self k = Inl RecursionError"
| "find_right_neighbor (Suc n) t self k =
     (case call_key (equals (objs t self)) k (key (objs t self)) of
        Inl e \<Rightarrow> Inl e
      | Inr True \<Rightarrow> neighbor_right_here t self
      | Inr False \<Rightarrow>
          (case call_key (comparator (objs t self)) k (key (objs t self)) of
             Inl e \<Rightarrow> Inl e
           | Inr True \<Rightarrow>
               (case left_child (objs t self) of
                  None \<Rightarrow> Inr None
                | Some l \<Rightarrow> find_right_neighbor n t l k)
           | Inr False \<Rightarrow>
               (case right_child (objs t self) of
                  None \<Rightarrow> Inr None
                | Some r \<Rightarrow> find_right_neighbor n t r k)))"

text \<open>
  \<^verbatim>\<open>TreeObject.find_neighbors\<close>: each side reads \<^verbatim>\<open>.value\<close> of what the search returned and
  turns an \<^verbatim>\<open>AttributeError\<close> (the search returned \<^verbatim>\<open>None\<close>) into \<^verbatim>\<open>None\<close>.
\<close>

definition value_or_none :: "('k, 'v) AvlTree \<Rightarrow> error + ref option \<Rightarrow> error + 'v option" where
  "value_or_none t res =
     (case res of
        Inl AttributeError \<Rightarrow> Inr None
      | Inl e \<Rightarrow> Inl e
      | Inr None \<Rightarrow> Inr None
      | Inr (Some r) \<Rightarrow> Inr (Some (val (objs t r))))"

definition TreeObject_find_neighbors ::
  "('k, 'v) AvlTree \<Rightarrow> ref \<Rightarrow> 'k \<Rightarrow> error + 'v option \<times> 'v option" where
  "TreeObject_find_neighbors t self k =
     (case value_or_none t (find_left_neighbor (count t) t self k) of
        Inl e \<Rightarrow> Inl e
      | Inr lv \<Rightarrow>
          (case value_or_none t (find_right_neighbor (count t) t self k) of
             Inl e \<Rightarrow> Inl e
           | Inr rv \<Rightarrow> Inr (lv, rv)))"

fun find_left_neighbor_by_pair ::
  "nat \<Rightarrow> ('k, 'v) AvlTree \<Rightarrow> ref \<Rightarrow> 'k \<Rightarrow> 'v \<Rightarrow> error + ref option" where
  "find_left_neighbor_by_pair 0 t self k v = Inl RecursionError"
| "find_left_neighbor_by_pair (Suc n) t self k v =
     (case call_key (equals (objs t self)) k (key (objs t self)) of
        Inl e \<Rightarrow> Inl e
      | Inr eq \<Rightarrow>
          if eq \<and> v = val (objs t self) then neighbor_left_here t self
          else
            (case call_key (comparator (objs t self)) k (key (objs t self)) of
               Inl e \<Rightarrow> Inl e
             | Inr True \<Rightarrow>
                 (case left_child (objs t self) of
                    None \<Rightarrow> Inr None
                  | Some l \<Rightarrow> find_left_neighbor_by_pair n t l k v)
             | Inr False \<Rightarrow>
                 (case right_child (objs t self) of
                    None \<Rightarrow> Inr None
                  | Some r \<Rightarrow> find_left_neighbor_by_pair n t r k v)))"

fun find_right_neighbor_by_pair ::
  "nat \<Rightarrow> ('k, 'v) AvlTree \<Rightarrow> ref \<Rightarrow> 'k \<Rightarrow> 'v \<Rightarrow> error + ref option" where
  "find_right_neighbor_by_pair 0 t self k v = Inl RecursionError"
| "find_right_neighbor_by_pair (Suc n) t self k v =
     (case call_key (equals (objs t self)) k (key (objs t self)) of
        Inl e \<Rightarrow> Inl e
      | Inr eq \<Rightarrow>
          if eq \<and> v = val (objs t self) then neighbor_right_here t self
          else
            (case call_key (comparator (objs t self)) k (key (objs t self)) of
               Inl e \<Rightarrow> Inl e
             | Inr True \<Rightarrow>
                 (case left_child (objs t self) of
                    None \<Rightarrow> Inr None
                  | Some l \<Rightarrow> find_right_neighbor_by_pair n t l k v)
             | Inr False \<Rightarrow>
                 (case right_child (objs t self) of
                    None \<Rightarrow> Inr None
                  | Some r \<Rightarrow> find_right_neighbor_by_pair n t r k v)))"

fun TreeObject_is_in :: "nat \<Rightarrow> ('k, 'v) AvlTree \<Rightarrow> ref \<Rightarrow> 'k \<Rightarrow> error + bool" where
  "TreeObject_is_in 0 t self k = Inl RecursionError"
| "TreeObject_is_in (Suc n) t self k =
     (case call_key (equals (objs t self)) k (key (objs t self)) of
        Inl e \<Rightarrow> Inl e
      | Inr True \<Rightarrow> Inr True
      | Inr False \<Rightarrow>
          (case call_key (comparator (objs t self)) k (key (objs t self)) of
             Inl e \<Rightarrow> Inl e
           | Inr True \<Rightarrow>
               (case left_child (objs t self) of
                  None \<Rightarrow> Inr False
                | Some l \<Rightarrow> TreeObject_is_in n t l k)
           | Inr False \<Rightarrow>
               (case right_child (objs t self) of
                  None \<Rightarrow> Inr False
                | Some r \<Rightarrow> TreeObject_is_in n t r k)))"

section \<open>AvlTree\<close>

definition default_comparator :: "'k::ord \<Rightarrow> 'k \<Rightarrow> bool" where
  "default_comparator key1 key2 = (key1 < key2)"

definition default_equals :: "'k \<Rightarrow> 'k \<Rightarrow> bool" where
  "default_equals key1 key2 = (key1 = key2)"

definition AvlTree_check_balance :: "('k, 'v) AvlTree \<Rightarrow> error + int" where
  "AvlTree_check_balance t =
     (case root_node t of None \<Rightarrow> Inl AttributeError | Some r \<Rightarrow> check_balance t r)"

text \<open>
  \<^verbatim>\<open>AvlTree.insert\<close>: the new node always carries the comparator and the equality of the
  tree object.
\<close>

definition AvlTree_insert :: "('k, 'v) AvlTree \<Rightarrow> 'k \<times> 'v \<Rightarrow> error + ('k, 'v) AvlTree" where
  "AvlTree_insert t element =
     (case root_node t of
        None \<Rightarrow>
          (case TreeObject_init t (fst element) (snd element)
                  (Some (tree_comparator t)) (Some (tree_equals t)) of
             (r, t1) \<Rightarrow> Inr (t1\<lparr>root_node := Some r\<rparr>))
      | Some rt \<Rightarrow>
          (case TreeObject_init t (fst element) (snd element)
                  (Some (tree_comparator t)) (Some (tree_equals t)) of
             (obj, t1) \<Rightarrow>
               (case TreeObject_insert (count t1) t1 rt obj of
                  Inl e \<Rightarrow> Inl e
                | Inr t2 \<Rightarrow>
                    (case AvlTree_check_balance t2 of Inl e \<Rightarrow> Inl e | Inr b \<Rightarrow> Inr t2))))"

text \<open>The loop \<^verbatim>\<open>for element in elements: self.insert(element=element)\<close>.\<close>

fun insert_each :: "('k, 'v) AvlTree \<Rightarrow> ('k \<times> 'v) list \<Rightarrow> error + ('k, 'v) AvlTree" where
  "insert_each t [] = Inr t"
| "insert_each t (element # elements) =
     (case AvlTree_insert t element of Inl e \<Rightarrow> Inl e | Inr t1 \<Rightarrow> insert_each t1 elements)"

text \<open>
  \<^verbatim>\<open>AvlTree.insert_list\<close> works on the caller's list object: \<^verbatim>\<open>elements.pop(0)\<close> removes
  its first entry for the caller too.  The model returns the content of that list after the
  call (also when the call raises) beside the outcome.
\<close>

function AvlTree_insert_list ::
  "('k, 'v) AvlTree \<Rightarrow> ('k \<times> 'v) list \<Rightarrow> ('k \<times> 'v) list \<times> (error + ('k, 'v) AvlTree)" where
  "AvlTree_insert_list t elements =
     (if elements = [] then (elements, Inr t)
      else if root_node t = None then
        (case TreeObject_init t (fst (hd elements)) (snd (hd elements))
                (Some (tree_comparator t)) (Some (tree_equals t)) of
           (r, t1) \<Rightarrow>
             if length (tl elements) \<noteq> 0
             then AvlTree_insert_list (t1\<lparr>root_node := Some r\<rparr>) (tl elements)
             else (tl elements, Inr (t1\<lparr>root_node := Some r\<rparr>)))
      else (elements, insert_each t elements))"
  by pat_completeness auto
termination
  by (relation "measure (\<lambda>(t, elements). if root_node t = None then 1 else 0)")
     (auto simp: TreeObject_init_def)

declare AvlTree_insert_list.simps [simp del]

text \<open>
  \<^verbatim>\<open>AvlTree.__init__\<close>.  The tree object keeps the default for an argument that is
  \<^verbatim>\<open>None\<close>, but the first node is created with the arguments as they were passed.
\<close>

definition AvlTree_init ::
  "('k::ord \<times> 'v) list \<Rightarrow> ('k \<Rightarrow> 'k \<Rightarrow> bool) option \<Rightarrow> ('k \<Rightarrow> 'k \<Rightarrow> bool) option
    \<Rightarrow> ('k \<times> 'v) list \<times> (error + ('k, 'v) AvlTree)" where
  "AvlTree_init elements comparator_arg equals_arg =
     (let t = \<lparr>root_node = None, objs = (\<lambda>r. undefined), count = 0,
               tree_comparator = (case comparator_arg of None \<Rightarrow> default_comparator | Some c \<Rightarrow> c),
               tree_equals = (case equals_arg of None \<Rightarrow> default_equals | Some e \<Rightarrow> e)\<rparr>
      in if length elements > 0 then
           (case TreeObject_init t (fst (hd elements)) (snd (hd elements)) comparator_arg equals_arg of
              (r, t1) \<Rightarrow>
                if length (tl elements) > 0
                then AvlTree_insert_list (t1\<lparr>root_node := Some r\<rparr>) (tl elements)
                else (tl elements, Inr (t1\<lparr>root_node := Some r\<rparr>)))
         else (elements, Inr t))"

definition AvlTree_remove :: "('k, 'v) AvlTree \<Rightarrow> 'k \<Rightarrow> error + ('k, 'v) AvlTree" where
  "AvlTree_remove t k =
     (case root_node t of
        None \<Rightarrow> Inl AttributeError
      | Some r \<Rightarrow> TreeObject_remove (count t) t r k)"

definition AvlTree_remove_pair :: "('k, 'v) AvlTree \<Rightarrow> 'k \<Rightarrow> 'v \<Rightarrow> error + ('k, 'v) AvlTree" where
  "AvlTree_remove_pair t k v =
     (case root_node t of
        None \<Rightarrow> Inr t
      | Some r \<Rightarrow> TreeObject_remove_pair t r k v)"

definition AvlTree_pop_lowest :: "('k, 'v) AvlTree \<Rightarrow> error + 'v option \<times> ('k, 'v) AvlTree" where
  "AvlTree_pop_lowest t =
     (case root_node t of
        None \<Rightarrow> Inr (None, t)
      | Some r \<Rightarrow>
          (case TreeObject_pop_lowest (count t) t r of
             Inl e \<Rightarrow> Inl e
           | Inr (v, t1) \<Rightarrow> Inr (Some v, t1)))"

text \<open>
  \<^verbatim>\<open>AvlTree.pop_all\<close>, with the list built so far as second argument.  The loop runs as long
  as the tree has a root; a run that never ends is the value \<open>None\<close>.
\<close>

partial_function (option) pop_all_loop ::
  "('k, 'v) AvlTree \<Rightarrow> 'v option list \<Rightarrow> (error + 'v option list \<times> ('k, 'v) AvlTree) option" where
  "pop_all_loop t ordered_tree =
     (if root_node t = None then Some (Inr (ordered_tree, t))
      else (case AvlTree_pop_lowest t of
              Inl e \<Rightarrow> Some (Inl e)
            | Inr (v, t1) \<Rightarrow> pop_all_loop t1 (ordered_tree @ [v])))"

definition AvlTree_pop_all ::
  "('k, 'v) AvlTree \<Rightarrow> (error + 'v option list \<times> ('k, 'v) AvlTree) option" where
  "AvlTree_pop_all t = pop_all_loop t []"

definition AvlTree_find_neighbors ::
  "('k, 'v) AvlTree \<Rightarrow> 'k \<Rightarrow> error + 'v option \<times> 'v option" where
  "AvlTree_find_neighbors t k =
     (case root_node t of
        None \<Rightarrow> Inr (None, None)
      | Some r \<Rightarrow> TreeObject_find_neighbors t r k)"

definition AvlTree_find_left_neighbor_by_pair ::
  "('k, 'v) AvlTree \<Rightarrow> 'k \<Rightarrow> 'v \<Rightarrow> error + 'v option" where
  "AvlTree_find_left_neighbor_by_pair t k v =
     (case root_node t of
        None \<Rightarrow> Inr None
      | Some r \<Rightarrow> value_or_none t (find_left_neighbor_by_pair (count t) t r k v))"

definition AvlTree_find_right_neighbor_by_pair ::
  "('k, 'v) AvlTree \<Rightarrow> 'k \<Rightarrow> 'v \<Rightarrow> error + 'v option" where
  "AvlTree_find_right_neighbor_by_pair t k v =
     (case root_node t of
        None \<Rightarrow> Inr None
      | Some r \<Rightarrow> value_or_none t (find_right_neighbor_by_pair (count t) t r k v))"

definition AvlTree_is_in :: "('k, 'v) AvlTree \<Rightarrow> 'k \<Rightarrow> error + bool" where
  "AvlTree_is_in t k =
     (case root_node t of
        None \<Rightarrow> Inr False
      | Some r \<Rightarrow> TreeObject_is_in (count t) t r k)"

section \<open>Points, segments and the geometric predicates\<close>

text \<open>
  Coordinates are Python floats in the source; the embedding computes with exact rational
  numbers.  \<open>x_position\<close> and \<open>y_position\<close> are the attributes \<^verbatim>\<open>x\<close> and \<^verbatim>\<open>y\<close> of
  \<^verbatim>\<open>Point\<close>.  Its attribute \<^verbatim>\<open>line_segment\<close> is written by \<^verbatim>\<open>Line.__init__\<close> and read
  nowhere, so the record does not carry it.
\<close>

record Point =
  x_position :: rat
  y_position :: rat

text \<open>
  Python defines no order on \<^verbatim>\<open>Point\<close> objects.  The event queue is always built with
  \<^verbatim>\<open>compare_events\<close>, so the default comparator is never called on points; the instance
  only lets points be keys of a tree.
\<close>

instantiation Point_ext :: (type) ord
begin

definition less_eq_Point_ext :: "'a Point_scheme \<Rightarrow> 'a Point_scheme \<Rightarrow> bool" where
  "less_eq_Point_ext p q = False"

definition less_Point_ext :: "'a Point_scheme \<Rightarrow> 'a Point_scheme \<Rightarrow> bool" where
  "less_Point_ext p q = False"

instance ..

end

definition compare :: "Point \<Rightarrow> Point \<Rightarrow> bool" where
  "compare self point = (x_position self = x_position point \<and> y_position self = y_position point)"

text \<open>
  A \<^verbatim>\<open>Line\<close> object.  All lines share one \<^verbatim>\<open>Sweepline\<close> object, whose position is a
  component of the state below; \<open>order\<close> is the only attribute that changes after creation.
  Where the source holds a \<^verbatim>\<open>Line\<close> object (in lists, as value in the status structure,
  under \<^verbatim>\<open>is\<close>), the model holds its index in the list of all line objects.
\<close>

record Line =
  upper :: Point
  lower :: Point
  order :: rat

type_synonym line_ref = nat

definition Line_init :: "Point \<Rightarrow> Point \<Rightarrow> Line" where
  "Line_init point1 point2 =
     (if y_position point1 > y_position point2 then \<lparr>upper = point1, lower = point2, order = 0\<rparr>
      else if y_position point1 < y_position point2 then \<lparr>upper = point2, lower = point1, order = 0\<rparr>
      else if x_position point1 < x_position point2 then \<lparr>upper = point1, lower = point2, order = 0\<rparr>
      else \<lparr>upper = point2, lower = point1, order = 0\<rparr>)"

definition compare_events :: "Point \<Rightarrow> Point \<Rightarrow> bool" where
  "compare_events key1 key2 =
     (if y_position key1 = y_position key2 then x_position key1 < x_position key2
      else y_position key1 > y_position key2)"

definition event_equals :: "Point \<Rightarrow> Point \<Rightarrow> bool" where
  "event_equals key1 key2 =
     (x_position key1 = x_position key2 \<and> y_position key1 = y_position key2)"

text \<open>\<^verbatim>\<open>calculate_line_status_key\<close>; the first argument is the position of the sweepline.\<close>

definition calculate_line_status_key :: "rat \<Rightarrow> Line \<Rightarrow> rat" where
  "calculate_line_status_key sweepline_position line =
     (if x_position (lower line) = x_position (upper line) then x_position (upper line)
      else if y_position (lower line) = y_position (upper line) then x_position (upper line)
      else
        let m = (y_position (upper line) - y_position (lower line))
                  / (x_position (upper line) - x_position (lower line));
            b = y_position (upper line) - x_position (upper line) * m
        in (sweepline_position - b) / m)"

definition calculate_line_status :: "Line \<Rightarrow> rat \<Rightarrow> rat" where
  "calculate_line_status line position =
     (let m = (y_position (upper line) - y_position (lower line))
                / (x_position (upper line) - x_position (lower line));
          b = y_position (upper line) - x_position (upper line) * m
      in (position - b) / m)"

text \<open>\<^verbatim>\<open>math.isclose\<close> with its defaults: relative tolerance \<open>1e-09\<close>, absolute tolerance \<open>0\<close>.\<close>

definition isclose :: "rat \<Rightarrow> rat \<Rightarrow> bool" where
  "isclose a b =
     (a = b \<or> \<bar>b - a\<bar> \<le> \<bar>(1 / 1000000000) * b\<bar> \<or> \<bar>b - a\<bar> \<le> \<bar>(1 / 1000000000) * a\<bar> \<or> \<bar>b - a\<bar> \<le> 0)"

definition lies_on_segment :: "Line \<Rightarrow> Point \<Rightarrow> bool" where
  "lies_on_segment segment point =
     (if y_position point < y_position (lower segment) \<or> y_position point > y_position (upper segment)
      then False
      else
        let rightmost_point =
              (if x_position (lower segment) > x_position (upper segment) then lower segment
               else upper segment);
            leftmost_point =
              (if x_position (lower segment) > x_position (upper segment) then upper segment
               else lower segment)
        in if x_position point < x_position leftmost_point
              \<or> x_position point > x_position rightmost_point
           then False
           else
             let direction_x = x_position (upper segment) - x_position (lower segment);
                 direction_y = y_position (upper segment) - y_position (lower segment);
                 point_vector_x = x_position point - x_position (lower segment);
                 point_vector_y = y_position point - y_position (lower segment)
             in if direction_x = 0 \<and> direction_y = 0 then False
                else if direction_x = 0 then point_vector_x = 0
                else if direction_y = 0 then point_vector_y = 0
                else isclose (point_vector_x / direction_x) (point_vector_y / direction_y))"

text \<open>
  \<^verbatim>\<open>numpy.linalg.solve\<close> on the matrix with the columns \<open>c1\<close> and \<open>c2\<close>: the solution of the
  two equations, or \<open>None\<close> for \<^verbatim>\<open>LinAlgError\<close> on a singular matrix.
\<close>

definition linalg_solve :: "rat \<times> rat \<Rightarrow> rat \<times> rat \<Rightarrow> rat \<times> rat \<Rightarrow> (rat \<times> rat) option" where
  "linalg_solve c1 c2 rhs =
     (let det = fst c1 * snd c2 - fst c2 * snd c1
      in if det = 0 then None
         else Some ((fst rhs * snd c2 - fst c2 * snd rhs) / det,
                    (fst c1 * snd rhs - fst rhs * snd c1) / det))"

text \<open>
  What \<^verbatim>\<open>line_intersection\<close> returns: \<^verbatim>\<open>None\<close> (the end of the body is reached), the pair
  \<^verbatim>\<open>(None, None)\<close> of the \<^verbatim>\<open>except\<close> arm, or the coordinates of the point.
\<close>

datatype intersection = NoValue | NonePair | Coordinates rat rat

definition line_intersection :: "Line \<Rightarrow> Line \<Rightarrow> intersection" where
  "line_intersection segment1 segment2 =
     (let p1 = (x_position (lower segment1), y_position (lower segment1));
          v1 = (x_position (upper segment1) - x_position (lower segment1),
                y_position (upper segment1) - y_position (lower segment1));
          p2 = (x_position (lower segment2), y_position (lower segment2));
          v2 = (x_position (upper segment2) - x_position (lower segment2),
                y_position (upper segment2) - y_position (lower segment2));
          v2n = (fst v2 * (- 1), snd v2 * (- 1));
          rhs = (fst p2 - fst p1, snd p2 - snd p1)
      in case linalg_solve v1 v2n rhs of
           None \<Rightarrow> NonePair
         | Some (t, s) \<Rightarrow>
             let intersection_point = (fst p1 + t * fst v1, snd p1 + t * snd v1);
                 point = \<lparr>x_position = fst intersection_point, y_position = snd intersection_point\<rparr>
             in if lies_on_segment segment1 point \<and> lies_on_segment segment2 point
                then Coordinates (fst intersection_point) (snd intersection_point)
                else NoValue)"

section \<open>The sweep\<close>

text \<open>
  The state of a \<^verbatim>\<open>FindIntersections\<close> object: its two trees, the position of the shared
  sweepline and the \<^verbatim>\<open>Line\<close> objects made by \<^verbatim>\<open>line_factory\<close>.  The status structure has its
  own store of nodes, and so has the event queue: no node belongs to both trees.
\<close>

record FindIntersections =
  status_structure :: "(rat, line_ref) AvlTree"
  event_queue :: "(Point, Point) AvlTree"
  sweepline_position :: rat
  line_objs :: "Line list"

definition line_key :: "FindIntersections \<Rightarrow> line_ref \<Rightarrow> rat" where
  "line_key s segment = calculate_line_status_key (sweepline_position s) (line_objs s ! segment)"

text \<open>
  \<^verbatim>\<open>sort_by_sweepline_order\<close>.  The source goes through \<^verbatim>\<open>set\<close> twice, which fixes no
  order; the model keeps the order of the list there.  The sort that follows is stable in
  Python as it is here, so the choice shows only between segments of equal \<open>order\<close>.
\<close>

definition set_order :: "Line list \<Rightarrow> line_ref \<Rightarrow> rat \<Rightarrow> Line list" where
  "set_order ls segment v = ls[segment := (ls ! segment)\<lparr>order := v\<rparr>]"

definition sort_by_sweepline_order ::
  "rat \<Rightarrow> Line list \<Rightarrow> line_ref list \<Rightarrow> line_ref list \<times> Line list" where
  "sort_by_sweepline_order sweepline_y ls segments =
     (if segments = [] then (segments, ls)
      else
        let horizontals =
              filter (\<lambda>segment. y_position (upper (ls ! segment)) = y_position (lower (ls ! segment)))
                segments;
            segments1 = remdups (filter (\<lambda>segment. segment \<notin> set horizontals) segments);
            verticals =
              filter (\<lambda>segment. x_position (upper (ls ! segment)) = x_position (lower (ls ! segment)))
                segments1;
            segments2 = remdups (filter (\<lambda>segment. segment \<notin> set verticals) segments1);
            ls1 = fold (\<lambda>segment l. set_order l segment (x_position (upper (l ! segment)))) verticals ls;
            ls2 = fold (\<lambda>segment l. set_order l segment (calculate_line_status (l ! segment) sweepline_y))
                    segments2 ls1;
            segments3 = sort_key (\<lambda>segment. order (ls2 ! segment)) (segments2 @ verticals);
            ls3 = (if length horizontals > 0
                   then fold (\<lambda>segment l.
                                if length segments3 > 0
                                then set_order l segment (order (l ! last segments3) + 1 / 100)
                                else set_order l segment (x_position (upper (l ! segment))))
                          horizontals ls2
                   else ls2)
        in (segments3 @ horizontals, ls3))"

text \<open>
  \<^verbatim>\<open>find_new_event\<close>.  The test \<^verbatim>\<open>intersection is not None\<close> lets the pair
  \<^verbatim>\<open>(None, None)\<close> pass, and \<^verbatim>\<open>intersection[1] < point.y\<close> then compares \<^verbatim>\<open>None\<close> with a
  number.
\<close>

definition find_new_event ::
  "FindIntersections \<Rightarrow> line_ref \<Rightarrow> line_ref \<Rightarrow> Point \<Rightarrow> error + FindIntersections" where
  "find_new_event s left_segment right_segment point =
     (case line_intersection (line_objs s ! left_segment) (line_objs s ! right_segment) of
        NoValue \<Rightarrow> Inr s
      | NonePair \<Rightarrow> Inl TypeError
      | Coordinates i0 i1 \<Rightarrow>
          if i1 < y_position point \<or> (i1 = y_position point \<and> i0 > x_position point) then
            (let intersection_point = \<lparr>x_position = i0, y_position = i1\<rparr>
             in case AvlTree_is_in (event_queue s) intersection_point of
                  Inl e \<Rightarrow> Inl e
                | Inr True \<Rightarrow> Inr s
                | Inr False \<Rightarrow>
                    (case AvlTree_insert (event_queue s) (intersection_point, intersection_point) of
                       Inl e \<Rightarrow> Inl e
                     | Inr q \<Rightarrow> Inr (s\<lparr>event_queue := q\<rparr>)))
          else Inr s)"

text \<open>
  The first lines of \<^verbatim>\<open>handle_event_points\<close>: the sweepline moves to the event point and
  the status structure is emptied and filled again with the keys of the new position.
\<close>

fun keyed_segments ::
  "FindIntersections \<Rightarrow> line_ref option list \<Rightarrow> error + (rat \<times> line_ref) list" where
  "keyed_segments s [] = Inr []"
| "keyed_segments s (None # segments) = Inl AttributeError"
| "keyed_segments s (Some segment # segments) =
     (case keyed_segments s segments of
        Inl e \<Rightarrow> Inl e
      | Inr rest \<Rightarrow> Inr ((line_key s segment, segment) # rest))"

definition rekey_status :: "FindIntersections \<Rightarrow> (error + FindIntersections) option" where
  "rekey_status s =
     (case AvlTree_pop_all (status_structure s) of
        None \<Rightarrow> None
      | Some (Inl e) \<Rightarrow> Some (Inl e)
      | Some (Inr (ordered_segments, t)) \<Rightarrow>
          Some (case keyed_segments s ordered_segments of
                  Inl e \<Rightarrow> Inl e
                | Inr elements \<Rightarrow>
                    (case snd (AvlTree_insert_list t elements) of
                       Inl e \<Rightarrow> Inl e
                     | Inr t1 \<Rightarrow> Inr (s\<lparr>status_structure := t1\<rparr>))))"

text \<open>
  The loop over \<^verbatim>\<open>line_segments\<close> that fills \<^verbatim>\<open>upper_p\<close>, \<^verbatim>\<open>lower_p\<close> and \<^verbatim>\<open>contains_p\<close>;
  the three lists are carried in this order.
\<close>

fun classify ::
  "FindIntersections \<Rightarrow> Point \<Rightarrow> line_ref list
    \<Rightarrow> line_ref list \<times> line_ref list \<times> line_ref list
    \<Rightarrow> error + (line_ref list \<times> line_ref list \<times> line_ref list) \<times> FindIntersections" where
  "classify s event_point [] acc = Inr (acc, s)"
| "classify s event_point (segment # line_segments) (upper_p, lower_p, contains_p) =
     (if compare (upper (line_objs s ! segment)) event_point
      then classify s event_point line_segments (upper_p @ [segment], lower_p, contains_p)
      else if compare (lower (line_objs s ! segment)) event_point
      then (case AvlTree_remove_pair (status_structure s) (line_key s segment) segment of
              Inl e \<Rightarrow> Inl e
            | Inr t \<Rightarrow>
                classify (s\<lparr>status_structure := t\<rparr>) event_point line_segments
                  (upper_p, lower_p @ [segment], contains_p))
      else if lies_on_segment (line_objs s ! segment) event_point
      then (case AvlTree_remove_pair (status_structure s) (line_key s segment) segment of
              Inl e \<Rightarrow> Inl e
            | Inr t \<Rightarrow>
                classify (s\<lparr>status_structure := t\<rparr>) event_point line_segments
                  (upper_p, lower_p, contains_p @ [segment]))
      else classify s event_point line_segments (upper_p, lower_p, contains_p))"

text \<open>
  The two loops that look for the leftmost and the rightmost segment; the state carried is
  \<^verbatim>\<open>(leftmost_segment, leftmost_point, rightmost_segment, rightmost_point)\<close>.
\<close>

definition extreme_step ::
  "line_ref \<Rightarrow> rat \<Rightarrow> line_ref \<times> rat \<times> line_ref \<times> rat \<Rightarrow> line_ref \<times> rat \<times> line_ref \<times> rat" where
  "extreme_step segment xv ext =
     (case ext of
        (leftmost_segment, leftmost_point, rightmost_segment, rightmost_point) \<Rightarrow>
          (case (if xv < leftmost_point then (segment, xv) else (leftmost_segment, leftmost_point)) of
             (ls, lp) \<Rightarrow>
               if xv > rightmost_point then (ls, lp, segment, xv)
               else (ls, lp, rightmost_segment, rightmost_point)))"

definition extremes ::
  "FindIntersections \<Rightarrow> line_ref list \<Rightarrow> line_ref list \<Rightarrow> line_ref
    \<Rightarrow> line_ref \<times> rat \<times> line_ref \<times> rat" where
  "extremes s upper_p contains_p first =
     fold (\<lambda>segment. extreme_step segment (line_key s segment)) contains_p
       (fold (\<lambda>segment. extreme_step segment (x_position (upper (line_objs s ! segment)))) upper_p
          (first, x_position (upper (line_objs s ! first)),
           first, x_position (upper (line_objs s ! first))))"

text \<open>
  The statement \<^verbatim>\<open>if neighbor is not None and neighbor is not segment:
  self.find_new_event(left_segment=neighbor, right_segment=segment, point=event_point)\<close>,
  which the source has once for the left and once for the right neighbour.
\<close>

definition neighbor_event ::
  "FindIntersections \<Rightarrow> line_ref option \<Rightarrow> line_ref \<Rightarrow> Point \<Rightarrow> error + FindIntersections" where
  "neighbor_event s neighbor segment event_point =
     (case neighbor of
        None \<Rightarrow> Inr s
      | Some nb \<Rightarrow>
          if nb \<noteq> segment then find_new_event s nb segment event_point else Inr s)"

text \<open>The last part of \<^verbatim>\<open>handle_event_points\<close>: the calls of \<^verbatim>\<open>find_new_event\<close>.\<close>

definition new_events ::
  "FindIntersections \<Rightarrow> Point \<Rightarrow> line_ref list \<Rightarrow> line_ref list \<Rightarrow> line_ref list
    \<Rightarrow> error + FindIntersections" where
  "new_events s event_point upper_p contains_p upper_contains_p =
     (if length (upper_p @ contains_p) = 0 then
        (case AvlTree_find_neighbors (status_structure s) (x_position event_point) of
           Inl e \<Rightarrow> Inl e
         | Inr (Some left_segment, Some right_segment) \<Rightarrow>
             find_new_event s left_segment right_segment event_point
         | Inr other \<Rightarrow> Inr s)
      else
        (case upper_contains_p of
           [] \<Rightarrow> Inl IndexError
         | first # others \<Rightarrow>
             (let leftmost_segment = fst (extremes s upper_p contains_p first);
                  rightmost_segment = fst (snd (snd (extremes s upper_p contains_p first)))
              in case AvlTree_find_left_neighbor_by_pair (status_structure s)
                        (line_key s leftmost_segment) leftmost_segment of
                   Inl e \<Rightarrow> Inl e
                 | Inr left_neighbor \<Rightarrow>
                     (case neighbor_event s left_neighbor leftmost_segment event_point of
                        Inl e \<Rightarrow> Inl e
                      | Inr s1 \<Rightarrow>
                          (case AvlTree_find_right_neighbor_by_pair (status_structure s1)
                                  (line_key s1 rightmost_segment) rightmost_segment of
                             Inl e \<Rightarrow> Inl e
                           | Inr right_neighbor \<Rightarrow>
                               neighbor_event s1 right_neighbor rightmost_segment event_point)))))"

definition handle_event_points ::
  "FindIntersections \<Rightarrow> Point \<Rightarrow> line_ref list \<Rightarrow> (Point \<times> line_ref list) list
    \<Rightarrow> (error + FindIntersections \<times> (Point \<times> line_ref list) list) option" where
  "handle_event_points s event_point line_segments intersection_list =
     (case rekey_status (s\<lparr>sweepline_position := y_position event_point\<rparr>) of
        None \<Rightarrow> None
      | Some (Inl e) \<Rightarrow> Some (Inl e)
      | Some (Inr s1) \<Rightarrow>
          Some
           (case classify s1 event_point line_segments ([], [], []) of
              Inl e \<Rightarrow> Inl e
            | Inr ((upper_p, lower_p, contains_p), s2) \<Rightarrow>
                let s3 = s2\<lparr>sweepline_position := sweepline_position s2 - 1 / 100\<rparr>
                in (case sort_by_sweepline_order (sweepline_position s3) (line_objs s3)
                          (upper_p @ contains_p) of
                      (upper_contains_p, ls) \<Rightarrow>
                        let s4 = s3\<lparr>line_objs := ls\<rparr>
                        in (case snd (AvlTree_insert_list (status_structure s4)
                                        (map (\<lambda>segment. (order (line_objs s4 ! segment), segment))
                                           upper_contains_p)) of
                              Inl e \<Rightarrow> Inl e
                            | Inr t \<Rightarrow>
                                let s5 = s4\<lparr>status_structure := t\<rparr>;
                                    potential_segments = upper_contains_p @ lower_p;
                                    intersection_list1 =
                                      (if length potential_segments > 1
                                       then intersection_list @ [(event_point, potential_segments)]
                                       else intersection_list)
                                in (case new_events s5 event_point upper_p contains_p upper_contains_p of
                                      Inl e \<Rightarrow> Inl e
                                    | Inr s6 \<Rightarrow>
                                        Inr (s6\<lparr>sweepline_position := y_position event_point\<rparr>,
                                             intersection_list1))))))"

definition line_factory :: "((rat \<times> rat) \<times> (rat \<times> rat)) list \<Rightarrow> Line list" where
  "line_factory lines =
     map (\<lambda>line. Line_init \<lparr>x_position = fst (fst line), y_position = snd (fst line)\<rparr>
                          \<lparr>x_position = fst (snd line), y_position = snd (snd line)\<rparr>) lines"

text \<open>
  \<^verbatim>\<open>event_point_factory\<close> collects the end points in a \<^verbatim>\<open>set\<close> of pairs and lists it; the
  model lists them without repetition in the order of the input.
\<close>

definition event_point_factory :: "((rat \<times> rat) \<times> (rat \<times> rat)) list \<Rightarrow> Point list" where
  "event_point_factory lines =
     map (\<lambda>event_point. \<lparr>x_position = fst event_point, y_position = snd event_point\<rparr>)
       (remdups (map fst lines @ map snd lines))"

text \<open>The \<^verbatim>\<open>while\<close> loop of \<^verbatim>\<open>find_intersections\<close>; \<open>None\<close> is a run that does not end.\<close>

partial_function (option) event_loop ::
  "FindIntersections \<Rightarrow> line_ref list \<Rightarrow> (Point \<times> line_ref list) list
    \<Rightarrow> (error + (Point \<times> line_ref list) list \<times> FindIntersections) option" where
  "event_loop s line_segments intersections =
     (if root_node (event_queue s) = None then Some (Inr (intersections, s))
      else
        (case AvlTree_pop_lowest (event_queue s) of
           Inl e \<Rightarrow> Some (Inl e)
         | Inr (None, q) \<Rightarrow> Some (Inl AttributeError)
         | Inr (Some next_event_point, q) \<Rightarrow>
             (case handle_event_points (s\<lparr>event_queue := q\<rparr>) next_event_point line_segments
                     intersections of
                None \<Rightarrow> None
              | Some (Inl e) \<Rightarrow> Some (Inl e)
              | Some (Inr (s1, intersections1)) \<Rightarrow> event_loop s1 line_segments intersections1)))"

text \<open>
  \<^verbatim>\<open>find_intersections\<close>: the line objects are the list \<open>line_segments\<close>, named by their
  indices.  The result is the list of records and the state at the end.
\<close>

definition find_intersections ::
  "rat \<Rightarrow> Line list \<Rightarrow> Point list \<Rightarrow> (error + (Point \<times> line_ref list) list \<times> FindIntersections) option" where
  "find_intersections position line_segments event_points =
     (case snd (AvlTree_init (map (\<lambda>event_point. (event_point, event_point)) event_points)
                  (Some compare_events) (Some event_equals)) of
        Inl e \<Rightarrow> Some (Inl e)
      | Inr q \<Rightarrow>
          (case snd (AvlTree_init [] None None) of
             Inl e \<Rightarrow> Some (Inl e)
           | Inr t \<Rightarrow>
               event_loop
                 \<lparr>status_structure = t, event_queue = q, sweepline_position = position,
                  line_objs = line_segments\<rparr>
                 [0..<length line_segments] []))"

definition search_intersections ::
  "((rat \<times> rat) \<times> (rat \<times> rat)) list \<Rightarrow> (error + (Point \<times> line_ref list) list \<times> FindIntersections) option" where
  "search_intersections lines = find_intersections 0 (line_factory lines) (event_point_factory lines)"

section \<open>Observations used in the statements\<close>

text \<open>
  The pairs stored in a tree, read in order from the root along the child links (the
  budget is the number of objects, as in the recursive methods).  The stored multiset of
  \<open>(key, value)\<close> pairs is the multiset of this list.
\<close>

fun pairs_from :: "nat \<Rightarrow> ('k, 'v) AvlTree \<Rightarrow> ref option \<Rightarrow> ('k \<times> 'v) list" where
  "pairs_from 0 t r = []"
| "pairs_from (Suc n) t None = []"
| "pairs_from (Suc n) t (Some r) =
     pairs_from n t (left_child (objs t r)) @ [(key (objs t r), val (objs t r))]
       @ pairs_from n t (right_child (objs t r))"

definition stored_pairs :: "('k, 'v) AvlTree \<Rightarrow> ('k \<times> 'v) list" where
  "stored_pairs t = pairs_from (count t) t (root_node t)"

text \<open>
  The tree a caller holds after \<^verbatim>\<open>tree = AvlTree([])\<close> and \<^verbatim>\<open>tree.insert_list(elements)\<close>,
  with the default comparator and equality.
\<close>

definition tree_of :: "('k::ord \<times> 'v) list \<Rightarrow> error + ('k, 'v) AvlTree" where
  "tree_of elements =
     (case snd (AvlTree_init [] None None) of
        Inl e \<Rightarrow> Inl e
      | Inr t \<Rightarrow> snd (AvlTree_insert_list t elements))"

text \<open>One call after another; an exception ends the sequence.\<close>

definition and_then :: "error + 'a \<Rightarrow> ('a \<Rightarrow> error + 'b) \<Rightarrow> error + 'b" where
  "and_then r f = (case r of Inl e \<Rightarrow> Inl e | Inr a \<Rightarrow> f a)"

section \<open>Abstraction of the store\<close>

text \<open>
  A tree of references describes the shape that the links give to a part of the store:
  \<open>tree_at h par t\<close> says that in the store \<open>h\<close> the nodes of \<open>t\<close> are linked as \<open>t\<close> shows,
  with \<open>par\<close> as the parent of its root.
\<close>

fun ptr :: "ref tree \<Rightarrow> ref option" where
  "ptr Leaf = None"
| "ptr (Node l a r) = Some a"

fun tree_at :: "(ref \<Rightarrow> ('k, 'v) TreeObject) \<Rightarrow> ref option \<Rightarrow> ref tree \<Rightarrow> bool" where
  "tree_at h par Leaf = True"
| "tree_at h par (Node l a r) =
     (parent (h a) = par \<and> left_child (h a) = ptr l \<and> right_child (h a) = ptr r
      \<and> tree_at h (Some a) l \<and> tree_at h (Some a) r)"

text \<open>The keys, read by \<open>kf\<close>, are in search-tree order for the comparator \<open>c\<close>.\<close>

fun bstk :: "('k \<Rightarrow> 'k \<Rightarrow> bool) \<Rightarrow> (ref \<Rightarrow> 'k) \<Rightarrow> ref tree \<Rightarrow> bool" where
  "bstk c kf Leaf = True"
| "bstk c kf (Node l a r) =
     (bstk c kf l \<and> bstk c kf r \<and> (\<forall>b\<in>set_tree l. c (kf b) (kf a)) \<and> (\<forall>b\<in>set_tree r. c (kf a) (kf b)))"

definition strict_order :: "('k \<Rightarrow> 'k \<Rightarrow> bool) \<Rightarrow> bool" where
  "strict_order c = ((\<forall>a. \<not> c a a) \<and> (\<forall>a b d. c a b \<longrightarrow> c b d \<longrightarrow> c a d) \<and> (\<forall>a b. a \<noteq> b \<longrightarrow> c a b \<or> c b a))"

text \<open>
  What a method that works on the subtree of \<open>self\<close> does to the rest of the tree: the link
  that held \<open>self\<close> (the root of the tree or a child link of the parent) now holds \<open>p'\<close>;
  objects outside the set \<open>A\<close> are unchanged and no object changes its key, its value, its
  comparator or its equality.
\<close>

definition relinked ::
  "('k, 'v) AvlTree \<Rightarrow> ('k, 'v) AvlTree \<Rightarrow> ref option \<Rightarrow> ref \<Rightarrow> ref option \<Rightarrow> bool" where
  "relinked st st' par self p' =
     (case par of
        None \<Rightarrow> root_node st' = p'
      | Some q \<Rightarrow>
          root_node st' = root_node st
          \<and> objs st' q = (if right_child (objs st q) = Some self
                          then (objs st q)\<lparr>right_child := p'\<rparr>
                          else (objs st q)\<lparr>left_child := p'\<rparr>))"

definition local_change :: "('k, 'v) AvlTree \<Rightarrow> ('k, 'v) AvlTree \<Rightarrow> ref set \<Rightarrow> bool" where
  "local_change st st' A =
     (count st' = count st \<and> tree_comparator st' = tree_comparator st
      \<and> tree_equals st' = tree_equals st
      \<and> (\<forall>x. x \<notin> A \<longrightarrow> objs st' x = objs st x)
      \<and> (\<forall>x. key (objs st' x) = key (objs st x) \<and> val (objs st' x) = val (objs st x)
             \<and> comparator (objs st' x) = comparator (objs st x)
             \<and> equals (objs st' x) = equals (objs st x)))"

definition hangs :: "('k, 'v) AvlTree \<Rightarrow> ref option \<Rightarrow> ref \<Rightarrow> ref tree \<Rightarrow> bool" where
  "hangs st par self t =
     (case par of
        None \<Rightarrow> root_node st = Some self
      | Some q \<Rightarrow>
          q \<notin> set_tree t
          \<and> (left_child (objs st q) = Some self \<or> right_child (objs st q) = Some self))"

text \<open>
  The invariant of a tree whose nodes were all created for the comparator \<open>c\<close> and the
  equality \<open>e\<close>, and the set of pairs it stores.
\<close>

definition tree_inv ::
  "('k \<Rightarrow> 'k \<Rightarrow> bool) \<Rightarrow> ('k \<Rightarrow> 'k \<Rightarrow> bool) \<Rightarrow> ('k, 'v) AvlTree \<Rightarrow> ref tree \<Rightarrow> bool" where
  "tree_inv c e q t =
     (tree_at (objs q) None t \<and> root_node q = ptr t \<and> distinct (inorder t)
      \<and> bstk c (\<lambda>x. key (objs q x)) t
      \<and> (\<forall>x\<in>set_tree t. x < count q \<and> comparator (objs q x) = Some c \<and> equals (objs q x) = Some e)
      \<and> tree_comparator q = c \<and> tree_equals q = e)"

definition pairs_of :: "('k, 'v) AvlTree \<Rightarrow> ref tree \<Rightarrow> ('k \<times> 'v) set" where
  "pairs_of q t = (\<lambda>x. (key (objs q x), val (objs q x))) ` set_tree t"

text \<open>
  The event queue during the sweep: every node has its key as value; with \<open>queue_after\<close>
  all of them come after the point \<open>p\<close> in the order of the queue.  \<open>sweep_inv\<close> adds that
  the records made so far are in that order and come before every queued point.
\<close>

definition queue_after :: "Point \<Rightarrow> (Point, Point) AvlTree \<Rightarrow> bool" where
  "queue_after p q =
     (\<exists>t. tree_inv compare_events event_equals q t
        \<and> (\<forall>(k, v)\<in>pairs_of q t. v = k \<and> compare_events p k))"

definition sweep_inv :: "FindIntersections \<Rightarrow> (Point \<times> line_ref list) list \<Rightarrow> bool" where
  "sweep_inv s ints =
     (\<exists>t. tree_inv compare_events event_equals (event_queue s) t
        \<and> (\<forall>(k, v)\<in>pairs_of (event_queue s) t. v = k)
        \<and> sorted_wrt (\<lambda>r r'. compare_events (fst r) (fst r')) ints
        \<and> (\<forall>r\<in>set ints. \<forall>(k, v)\<in>pairs_of (event_queue s) t. compare_events (fst r) k))"

definition sweep_order :: "Point \<times> line_ref list \<Rightarrow> Point \<times> line_ref list \<Rightarrow> bool" where
  "sweep_order r r' =
     (y_position (fst r) > y_position (fst r')
      \<or> (y_position (fst r) = y_position (fst r') \<and> x_position (fst r) < x_position (fst r')))"

declare pop_all_loop.simps [code]
declare event_loop.simps [code]
declare AvlTree_insert_list.simps [code]

section \<open>Properties of the tree\<close>

lemma insert_list_rooted:
  "root_node t \<noteq> None \<Longrightarrow> fst (AvlTree_insert_list t elements) = elements"
  by (subst AvlTree_insert_list.simps) auto

text \<open>
  Claim C10.  For every non-empty list passed as \<^verbatim>\<open>elements\<close> to the constructor of
  \<^verbatim>\<open>AvlTree\<close>, and to \<^verbatim>\<open>insert_list\<close> on a tree without root, the caller's list has lost its
  first element after the call, whatever comparator and equality are passed and whether
  the call returns or raises.
\<close>

theorem constructor_pops_first_element:
  "elements \<noteq> [] \<longrightarrow>
     fst (AvlTree_init elements comparator_arg equals_arg) = tl elements
     \<and> (root_node t = None \<longrightarrow> fst (AvlTree_insert_list t elements) = tl elements)"
proof (intro impI conjI)
  assume ne: "elements \<noteq> []"
  show "fst (AvlTree_init elements comparator_arg equals_arg) = tl elements"
    using ne by (simp add: AvlTree_init_def Let_def TreeObject_init_def insert_list_rooted)
  assume "root_node t = None"
  then show "fst (AvlTree_insert_list t elements) = tl elements"
    using ne
    by (subst AvlTree_insert_list.simps) (simp add: TreeObject_init_def insert_list_rooted)
qed

theorem constructor_pops_first_element_witness:
  "[(1::rat, 0::nat), (2, 1)] \<noteq> []
   \<and> fst (AvlTree_init [(1::rat, 0::nat), (2, 1)] None None) = [(2, 1)]
   \<and> snd (AvlTree_init [(1::rat, 0::nat), (2, 1)] None None) = Inl TypeError
   \<and> root_node (\<lparr>root_node = None, objs = (\<lambda>r. undefined), count = 0,
                  tree_comparator = default_comparator, tree_equals = default_equals\<rparr>
                 :: (rat, nat) AvlTree) = None
   \<and> fst (AvlTree_insert_list
             \<lparr>root_node = None, objs = (\<lambda>r. undefined), count = 0,
              tree_comparator = default_comparator, tree_equals = default_equals\<rparr>
             [(1::rat, 0::nat), (2, 1)]) = [(2, 1)]"
  using constructor_pops_first_element [of "[(1::rat, 0::nat), (2, 1)]" None None
    "\<lparr>root_node = None, objs = (\<lambda>r. undefined), count = 0,
      tree_comparator = default_comparator, tree_equals = default_equals\<rparr>"]
  apply simp
  apply (simp add: AvlTree_init_def Let_def TreeObject_init_def)
  apply (subst AvlTree_insert_list.simps)
  apply (simp add: AvlTree_insert_def TreeObject_init_def call_key_def)
  done

text \<open>
  Claim C4 says that \<^verbatim>\<open>remove_pair(k, v)\<close> removes exactly the node with key \<open>k\<close> and value
  \<open>v\<close> and keeps every other node with that key.  On the tree that holds the values \<open>0\<close>,
  \<open>1\<close> and \<open>2\<close> under the key \<open>5\<close>, \<^verbatim>\<open>remove_pair(5, 0)\<close> keeps the pair \<open>(5, 0)\<close> and removes
  the pair \<open>(5, 2)\<close>: below the root the method continues with \<^verbatim>\<open>remove(key)\<close>, which takes
  the first node with an equal key.
\<close>

theorem remove_pair_takes_other_node:
  "and_then (tree_of [(5::rat, 0::nat), (5, 1), (5, 2)]) (\<lambda>t. Inr (stored_pairs t))
     = Inr [(5, 0), (5, 1), (5, 2)]
   \<and> and_then (tree_of [(5::rat, 0::nat), (5, 1), (5, 2)])
         (\<lambda>t. and_then (AvlTree_remove_pair t 5 0) (\<lambda>t1. Inr (stored_pairs t1)))
     = Inr [(5, 0), (5, 1)]"
  by code_simp

text \<open>
  The descent of \<^verbatim>\<open>remove\<close> and \<^verbatim>\<open>remove_pair\<close> goes to the left child when the key of the
  node is smaller than the key looked for: a node in the right subtree is not found.
\<close>

lemma remove_pair_misses_node:
  "and_then (tree_of [(5::rat, 0::nat), (3, 1), (7, 2)]) (\<lambda>t. Inr (stored_pairs t))
     = Inr [(3, 1), (5, 0), (7, 2)]
   \<and> and_then (tree_of [(5::rat, 0::nat), (3, 1), (7, 2)])
         (\<lambda>t. and_then (AvlTree_remove_pair t 7 2) (\<lambda>t1. Inr (stored_pairs t1)))
     = Inr [(3, 1), (5, 0), (7, 2)]"
  by code_simp

text \<open>
  Claim C5 says that \<^verbatim>\<open>remove(k)\<close> raises nothing and changes nothing when no node has the
  key \<open>k\<close>, the empty tree included.  On the empty tree \<^verbatim>\<open>AvlTree.remove\<close> reads
  \<^verbatim>\<open>self.root.remove\<close> with \<^verbatim>\<open>self.root\<close> being \<^verbatim>\<open>None\<close>: for every key the call raises
  \<^verbatim>\<open>AttributeError\<close>.
\<close>

theorem remove_on_empty_tree_raises:
  "and_then (snd (AvlTree_init ([] :: (rat \<times> nat) list) None None)) (\<lambda>t. AvlTree_remove t k)
     = Inl AttributeError"
  by (simp add: AvlTree_init_def and_then_def AvlTree_remove_def)

text \<open>
  Claim C6 says that \<^verbatim>\<open>insert(k, v)\<close> changes nothing when a node with key \<open>k\<close> and the very
  value \<open>v\<close> is stored.  On the tree that holds the one pair \<open>(5, 0)\<close>, inserting \<open>(5, 0)\<close>
  again stores the pair twice: the test for an identical value is reached only when the
  comparator answers \<^verbatim>\<open>True\<close>, which \<open>5 < 5\<close> does not.
\<close>

theorem insert_identical_pair_adds_node:
  "and_then (tree_of [(5::rat, 0::nat)]) (\<lambda>t. Inr (stored_pairs t)) = Inr [(5, 0)]
   \<and> and_then (tree_of [(5::rat, 0::nat)])
         (\<lambda>t. and_then (AvlTree_insert t (5, 0)) (\<lambda>t1. Inr (stored_pairs t1)))
     = Inr [(5, 0), (5, 0)]"
  by code_simp

text \<open>
  Claim C7 says that \<^verbatim>\<open>find_neighbors(k)\<close> returns the values of the in-order predecessor
  and successor of the place of \<open>k\<close> when no node has the key \<open>k\<close>.  On the tree with the
  keys \<open>1\<close> and \<open>3\<close>, \<^verbatim>\<open>find_neighbors(2)\<close> returns \<^verbatim>\<open>(None, None)\<close>, although \<open>1\<close> lies before
  and \<open>3\<close> after \<open>2\<close>: both searches end in \<^verbatim>\<open>return None\<close> when the descent finds no child.
\<close>

theorem find_neighbors_absent_key:
  "and_then (tree_of [(1::rat, 0::nat), (3, 1)]) (\<lambda>t. Inr (stored_pairs t)) = Inr [(1, 0), (3, 1)]
   \<and> and_then (tree_of [(1::rat, 0::nat), (3, 1)]) (\<lambda>t. AvlTree_find_neighbors t 2)
     = Inr (None, None)"
  by code_simp

text \<open>
  Claim C9 says that \<^verbatim>\<open>remove_pair(k, v)\<close> followed by \<^verbatim>\<open>insert\<close> of \<open>(k, v)\<close> leaves the
  stored multiset as it was.  On the tree with the pairs \<open>(3, 1)\<close>, \<open>(5, 0)\<close> and \<open>(7, 2)\<close>,
  \<^verbatim>\<open>remove_pair(7, 2)\<close> removes nothing and the insertion then stores \<open>(7, 2)\<close> a second time.
\<close>

theorem remove_pair_then_insert_duplicates:
  "and_then (tree_of [(5::rat, 0::nat), (3, 1), (7, 2)])
         (\<lambda>t. and_then (AvlTree_remove_pair t 7 2)
            (\<lambda>t1. and_then (AvlTree_insert t1 (7, 2)) (\<lambda>t2. Inr (stored_pairs t2))))
     = Inr [(3, 1), (5, 0), (7, 2), (7, 2)]"
  by code_simp

subsection \<open>The store of the event queue stays a search tree\<close>

text \<open>
  The lemmas of this part follow \<^verbatim>\<open>insert\<close>, \<^verbatim>\<open>pop_lowest\<close> and \<^verbatim>\<open>is_in\<close> through the
  store, for a comparator that is a strict linear order and an equality that is equality
  of keys.  They speak about calls that return.
\<close>

lemma ptr_None [simp]: "ptr t = None \<longleftrightarrow> t = Leaf"
  by (cases t) auto

lemma ptr_Some: "ptr t = Some a \<Longrightarrow> \<exists>l r. t = Node l a r"
  by (cases t) auto

lemma tree_at_cong: "(\<And>x. x \<in> set_tree t \<Longrightarrow> h' x = h x) \<Longrightarrow> tree_at h' par t = tree_at h par t"
  by (induction t arbitrary: par) auto

lemma tree_at_upd_other [simp]: "x \<notin> set_tree t \<Longrightarrow> tree_at (h(x := v)) par t = tree_at h par t"
  by (rule tree_at_cong) auto

lemma tree_at_reparent:
  assumes "tree_at h par t" "\<And>x. x \<in> set_tree t \<Longrightarrow> Some x \<noteq> ptr t \<Longrightarrow> h' x = h x"
    "\<And>c. ptr t = Some c \<Longrightarrow> h' c = (h c)\<lparr>parent := par'\<rparr>" "distinct (inorder t)"
  shows "tree_at h' par' t"
proof (cases t)
  case Leaf then show ?thesis by simp
next
  case (Node l c r)
  have "tree_at h' (Some c) l = tree_at h (Some c) l"
    using assms(2,4) Node by (intro tree_at_cong) auto
  moreover have "tree_at h' (Some c) r = tree_at h (Some c) r"
    using assms(2,4) Node by (intro tree_at_cong) auto
  ultimately show ?thesis using assms(1,3) Node by simp
qed

lemma set_simps [simp]:
  "objs (set_parent st x v) = (objs st)(x := (objs st x)\<lparr>parent := v\<rparr>)"
  "objs (set_left_child st x v) = (objs st)(x := (objs st x)\<lparr>left_child := v\<rparr>)"
  "objs (set_right_child st x v) = (objs st)(x := (objs st x)\<lparr>right_child := v\<rparr>)"
  "root_node (set_parent st x v) = root_node st"
  "root_node (set_left_child st x v) = root_node st"
  "root_node (set_right_child st x v) = root_node st"
  "count (set_parent st x v) = count st"
  "count (set_left_child st x v) = count st"
  "count (set_right_child st x v) = count st"
  "tree_comparator (set_parent st x v) = tree_comparator st"
  "tree_comparator (set_left_child st x v) = tree_comparator st"
  "tree_comparator (set_right_child st x v) = tree_comparator st"
  "tree_equals (set_parent st x v) = tree_equals st"
  "tree_equals (set_left_child st x v) = tree_equals st"
  "tree_equals (set_right_child st x v) = tree_equals st"
  by (simp_all add: set_parent_def set_left_child_def set_right_child_def)

lemma local_change_refl: "local_change st st A"
  by (simp add: local_change_def)

lemma local_change_trans:
  assumes "local_change st st1 A" "local_change st1 st' B" "A \<subseteq> C" "B \<subseteq> C"
  shows "local_change st st' C"
proof -
  have "objs st' x = objs st x" if "x \<notin> C" for x
  proof -
    from that assms(3,4) have "x \<notin> A" "x \<notin> B" by auto
    then show ?thesis using assms(1,2) by (simp add: local_change_def)
  qed
  then show ?thesis using assms(1,2) by (simp add: local_change_def)
qed

lemma rot_right_ok:
  assumes rot: "simple_rot_right st a = Inr st'"
    and ta: "tree_at (objs st) par (Node l a r)"
    and dist: "distinct (inorder (Node l a r))"
    and out: "hangs st par a (Node l a r)"
  shows "\<exists>ll b lr. l = Node ll b lr \<and> tree_at (objs st') par (Node ll b (Node lr a r))
           \<and> relinked st st' par a (Some b)
           \<and> local_change st st' (set_tree (Node l a r) \<union> set_option par)"
proof (cases l)
  case Leaf
  with rot ta show ?thesis by (simp add: simple_rot_right_def)
next
  case (Node ll b lr)
  note l = Node
  have ne: "a \<noteq> b" "a \<notin> set_tree ll" "a \<notin> set_tree lr" "a \<notin> set_tree r"
    "b \<notin> set_tree ll" "b \<notin> set_tree lr" "b \<notin> set_tree r"
    using dist l by auto
  have fields: "left_child (objs st a) = Some b" "parent (objs st a) = par"
    "right_child (objs st a) = ptr r" "right_child (objs st b) = ptr lr"
    "left_child (objs st b) = ptr ll" "parent (objs st b) = Some a"
    "tree_at (objs st) (Some b) ll" "tree_at (objs st) (Some b) lr" "tree_at (objs st) (Some a) r"
    using ta l by auto
  show ?thesis
  proof (cases par)
    case None
    show ?thesis
    proof (cases lr)
      case Leaf
      have st': "st' = (set_left_child (set_parent (set_right_child (set_parent (st\<lparr>root_node := Some b\<rparr>) b None) b (Some a)) a (Some b)) a None)"
        using rot fields None Leaf by (simp add: simple_rot_right_def Let_def)
      show ?thesis unfolding st' using fields ne None Leaf l
        by (simp add: relinked_def local_change_def)
    next
      case (Node lrl c lrr)
      have c: "c \<noteq> a" "c \<noteq> b" "c \<notin> set_tree ll" "c \<notin> set_tree r" "c \<notin> set_tree lrl" "c \<notin> set_tree lrr"
        using dist l Node by auto
      have st': "st' = set_parent (set_left_child (set_parent (set_right_child (set_parent (st\<lparr>root_node := Some b\<rparr>) b None) b (Some a)) a (Some b)) a (Some c)) c (Some a)"
        using rot fields None Node by (simp add: simple_rot_right_def Let_def)
      have lrt: "tree_at ((objs st)(b := x, a := y, c := (objs st c)\<lparr>parent := Some a\<rparr>)) (Some a) lr" for x y
        using fields(8) Node c ne by (intro tree_at_reparent[OF fields(8)]) (use dist l Node in auto)
      show ?thesis unfolding st' using fields ne None Node l c lrt
        by (simp add: relinked_def local_change_def)
    qed
  next
    case (Some q)
    then have q: "q \<noteq> a" "q \<noteq> b" "q \<notin> set_tree ll" "q \<notin> set_tree lr" "q \<notin> set_tree r"
      using out l by (auto simp: hangs_def)
    define nq where "nq = (if right_child (objs st q) = Some a
        then (objs st q)\<lparr>right_child := Some b\<rparr> else (objs st q)\<lparr>left_child := Some b\<rparr>)"
    show ?thesis
    proof (cases lr)
      case Leaf
      have st': "objs st' = (objs st)(b := (objs st b)\<lparr>parent := par, right_child := Some a\<rparr>, q := nq,
            a := (objs st a)\<lparr>parent := Some b, left_child := None\<rparr>)"
        "root_node st' = root_node st" "count st' = count st"
        "tree_comparator st' = tree_comparator st" "tree_equals st' = tree_equals st"
        using rot fields Some Leaf q ne
        by (auto simp: simple_rot_right_def Let_def nq_def fun_upd_twist)
      show ?thesis using st' fields ne Some Leaf l q
        by (simp add: relinked_def local_change_def nq_def)
    next
      case (Node lrl c lrr)
      have c: "c \<noteq> a" "c \<noteq> b" "c \<noteq> q" "c \<notin> set_tree ll" "c \<notin> set_tree r" "c \<notin> set_tree lrl" "c \<notin> set_tree lrr"
        using dist l Node q by auto
      have st': "objs st' = (objs st)(b := (objs st b)\<lparr>parent := par, right_child := Some a\<rparr>, q := nq,
            a := (objs st a)\<lparr>parent := Some b, left_child := Some c\<rparr>, c := (objs st c)\<lparr>parent := Some a\<rparr>)"
        "root_node st' = root_node st" "count st' = count st"
        "tree_comparator st' = tree_comparator st" "tree_equals st' = tree_equals st"
        using rot fields Some Node q ne c
        by (auto simp: simple_rot_right_def Let_def nq_def fun_upd_twist)
      have lrt: "tree_at ((objs st)(b := x, q := z, a := y, c := (objs st c)\<lparr>parent := Some a\<rparr>)) (Some a) lr" for x y z
        using fields(8) Node c ne q by (intro tree_at_reparent[OF fields(8)]) (use dist l Node in auto)
      show ?thesis using st' fields ne Some Node l c q lrt
        by (simp add: relinked_def local_change_def nq_def)
    qed
  qed
qed

lemma rot_left_ok:
  assumes rot: "simple_rot_left st a = Inr st'"
    and ta: "tree_at (objs st) par (Node l a r)"
    and dist: "distinct (inorder (Node l a r))"
    and out: "hangs st par a (Node l a r)"
  shows "\<exists>rl b rr. r = Node rl b rr \<and> tree_at (objs st') par (Node (Node l a rl) b rr)
           \<and> relinked st st' par a (Some b)
           \<and> local_change st st' (set_tree (Node l a r) \<union> set_option par)"
proof (cases r)
  case Leaf
  with rot ta show ?thesis by (simp add: simple_rot_left_def)
next
  case (Node rl b rr)
  note r = Node
  have ne: "a \<noteq> b" "a \<notin> set_tree rl" "a \<notin> set_tree rr" "a \<notin> set_tree l"
    "b \<notin> set_tree rl" "b \<notin> set_tree rr" "b \<notin> set_tree l"
    using dist r by auto
  have fields: "right_child (objs st a) = Some b" "parent (objs st a) = par"
    "left_child (objs st a) = ptr l" "left_child (objs st b) = ptr rl"
    "right_child (objs st b) = ptr rr" "parent (objs st b) = Some a"
    "tree_at (objs st) (Some b) rr" "tree_at (objs st) (Some b) rl" "tree_at (objs st) (Some a) l"
    using ta r by auto
  show ?thesis
  proof (cases par)
    case None
    show ?thesis
    proof (cases rl)
      case Leaf
      have st': "st' = (set_right_child (set_parent (set_left_child (set_parent (st\<lparr>root_node := Some b\<rparr>) b None) b (Some a)) a (Some b)) a None)"
        using rot fields None Leaf by (simp add: simple_rot_left_def Let_def)
      show ?thesis unfolding st' using fields ne None Leaf r
        by (simp add: relinked_def local_change_def)
    next
      case (Node rll c rlr)
      have c: "c \<noteq> a" "c \<noteq> b" "c \<notin> set_tree rr" "c \<notin> set_tree l" "c \<notin> set_tree rll" "c \<notin> set_tree rlr"
        using dist r Node by auto
      have st': "st' = set_parent (set_right_child (set_parent (set_left_child (set_parent (st\<lparr>root_node := Some b\<rparr>) b None) b (Some a)) a (Some b)) a (Some c)) c (Some a)"
        using rot fields None Node by (simp add: simple_rot_left_def Let_def)
      have rlt: "tree_at ((objs st)(b := x, a := y, c := (objs st c)\<lparr>parent := Some a\<rparr>)) (Some a) rl" for x y
        using fields(8) Node c ne by (intro tree_at_reparent[OF fields(8)]) (use dist r Node in auto)
      show ?thesis unfolding st' using fields ne None Node r c rlt
        by (simp add: relinked_def local_change_def)
    qed
  next
    case (Some q)
    then have q: "q \<noteq> a" "q \<noteq> b" "q \<notin> set_tree rl" "q \<notin> set_tree rr" "q \<notin> set_tree l"
      using out r by (auto simp: hangs_def)
    define nq where "nq = (if right_child (objs st q) = Some a
        then (objs st q)\<lparr>right_child := Some b\<rparr> else (objs st q)\<lparr>left_child := Some b\<rparr>)"
    show ?thesis
    proof (cases rl)
      case Leaf
      have st': "objs st' = (objs st)(b := (objs st b)\<lparr>parent := par, left_child := Some a\<rparr>, q := nq,
            a := (objs st a)\<lparr>parent := Some b, right_child := None\<rparr>)"
        "root_node st' = root_node st" "count st' = count st"
        "tree_comparator st' = tree_comparator st" "tree_equals st' = tree_equals st"
        using rot fields Some Leaf q ne
        by (auto simp: simple_rot_left_def Let_def nq_def fun_upd_twist)
      show ?thesis using st' fields ne Some Leaf r q
        by (simp add: relinked_def local_change_def nq_def)
    next
      case (Node rll c rlr)
      have c: "c \<noteq> a" "c \<noteq> b" "c \<noteq> q" "c \<notin> set_tree rr" "c \<notin> set_tree l" "c \<notin> set_tree rll" "c \<notin> set_tree rlr"
        using dist r Node q by auto
      have st': "objs st' = (objs st)(b := (objs st b)\<lparr>parent := par, left_child := Some a\<rparr>, q := nq,
            a := (objs st a)\<lparr>parent := Some b, right_child := Some c\<rparr>, c := (objs st c)\<lparr>parent := Some a\<rparr>)"
        "root_node st' = root_node st" "count st' = count st"
        "tree_comparator st' = tree_comparator st" "tree_equals st' = tree_equals st"
        using rot fields Some Node q ne c
        by (auto simp: simple_rot_left_def Let_def nq_def fun_upd_twist)
      have rlt: "tree_at ((objs st)(b := x, q := z, a := y, c := (objs st c)\<lparr>parent := Some a\<rparr>)) (Some a) rl" for x y z
        using fields(8) Node c ne q by (intro tree_at_reparent[OF fields(8)]) (use dist r Node in auto)
      show ?thesis using st' fields ne Some Node r c q rlt
        by (simp add: relinked_def local_change_def nq_def)
    qed
  qed
qed

lemma rebalance_ok:
  assumes reb: "rebalance st a = Inr st'"
    and ta: "tree_at (objs st) par t" and root: "ptr t = Some a"
    and dist: "distinct (inorder t)"
    and out: "hangs st par a t"
    and trans: "\<forall>x y z. c x y \<longrightarrow> c y z \<longrightarrow> c x z"
    and bst: "bstk c kf t"
  shows "\<exists>t'. tree_at (objs st') par t' \<and> ptr t' \<noteq> None \<and> set_tree t' = set_tree t
           \<and> distinct (inorder t') \<and> bstk c kf t'
           \<and> relinked st st' par a (ptr t')
           \<and> local_change st st' (set_tree t \<union> set_option par)"
proof -
  obtain l r where t: "t = Node l a r" using root ptr_Some by blast
  obtain bal where bal: "check_balance st a = Inr bal"
    using reb by (cases "check_balance st a") (simp_all add: rebalance_def)
  have "st' = st \<or> simple_rot_right st a = Inr st' \<or> simple_rot_left st a = Inr st'"
    using reb unfolding rebalance_def bal by (simp split: if_splits)
  then consider (same) "st' = st" | (right) "simple_rot_right st a = Inr st'"
    | (left) "simple_rot_left st a = Inr st'"
    by blast
  then show ?thesis
  proof cases
    case same
    have "relinked st st par a (Some a)"
      using out by (cases par) (auto simp: relinked_def hangs_def)
    then show ?thesis using same ta dist bst t
      by (intro exI[of _ t]) (simp add: local_change_refl)
  next
    case right
    from rot_right_ok[OF right ta[unfolded t] dist[unfolded t] out[unfolded t]]
    obtain ll b lr where l: "l = Node ll b lr"
      and *: "tree_at (objs st') par (Node ll b (Node lr a r))" "relinked st st' par a (Some b)"
        "local_change st st' (set_tree (Node l a r) \<union> set_option par)" by blast
    have "bstk c kf (Node ll b (Node lr a r))"
      using bst trans unfolding t l by auto
    moreover have "distinct (inorder (Node ll b (Node lr a r)))" "set_tree (Node ll b (Node lr a r)) = set_tree t"
      using dist unfolding t l by auto
    ultimately show ?thesis using * t
      by (intro exI[of _ "Node ll b (Node lr a r)"]) simp
  next
    case left
    from rot_left_ok[OF left ta[unfolded t] dist[unfolded t] out[unfolded t]]
    obtain rl b rr where r: "r = Node rl b rr"
      and *: "tree_at (objs st') par (Node (Node l a rl) b rr)" "relinked st st' par a (Some b)"
        "local_change st st' (set_tree (Node l a r) \<union> set_option par)" by blast
    have "bstk c kf (Node (Node l a rl) b rr)"
      using bst trans unfolding t r by auto
    moreover have "distinct (inorder (Node (Node l a rl) b rr))" "set_tree (Node (Node l a rl) b rr) = set_tree t"
      using dist unfolding t r by auto
    ultimately show ?thesis using * t
      by (intro exI[of _ "Node (Node l a rl) b rr"]) simp
  qed
qed

lemma relinked_shift:
  "relinked st1 st' par self p' \<Longrightarrow> root_node st1 = root_node st
    \<Longrightarrow> (\<And>q. par = Some q \<Longrightarrow> objs st1 q = objs st q) \<Longrightarrow> relinked st st' par self p'"
  by (cases par) (simp_all add: relinked_def)

lemma local_change_keys: "local_change st st1 A \<Longrightarrow> (\<lambda>x. key (objs st1 x)) = (\<lambda>x. key (objs st x))"
  by (auto simp: local_change_def)

lemma local_change_mono: "local_change st st' A \<Longrightarrow> A \<subseteq> B \<Longrightarrow> local_change st st' B"
  using local_change_trans[OF local_change_refl] by blast

lemma rebalance_after:
  assumes reb: "rebalance st1 self = Inr st'"
    and ta: "tree_at (objs st1) par t1" and root: "ptr t1 = Some self"
    and dist: "distinct (inorder t1)"
    and out: "hangs st1 par self t1"
    and trans: "\<forall>x y z. c x y \<longrightarrow> c y z \<longrightarrow> c x z"
    and bst: "bstk c (\<lambda>x. key (objs st x)) t1"
    and lc: "local_change st st1 A" and A: "A \<subseteq> set_tree t1"
    and rt: "root_node st1 = root_node st"
  shows "\<exists>t'. tree_at (objs st') par t' \<and> ptr t' \<noteq> None \<and> set_tree t' = set_tree t1
           \<and> distinct (inorder t') \<and> bstk c (\<lambda>x. key (objs st x)) t'
           \<and> relinked st st' par self (ptr t')
           \<and> local_change st st' (set_tree t1 \<union> set_option par)"
proof -
  from rebalance_ok[OF reb ta root dist out trans bst]
  obtain t' where t': "tree_at (objs st') par t'" "ptr t' \<noteq> None" "set_tree t' = set_tree t1"
    "distinct (inorder t')" "bstk c (\<lambda>x. key (objs st x)) t'"
    "relinked st1 st' par self (ptr t')" "local_change st1 st' (set_tree t1 \<union> set_option par)"
    by blast
  have q: "objs st1 q = objs st q" if "par = Some q" for q
  proof -
    from that out have "q \<notin> set_tree t1" by (simp add: hangs_def)
    with A have "q \<notin> A" by auto
    with lc show ?thesis by (simp add: local_change_def)
  qed
  have "relinked st st' par self (ptr t')"
    using relinked_shift[OF t'(6) rt q] by simp
  moreover have "local_change st st' (set_tree t1 \<union> set_option par)"
    by (rule local_change_trans[OF lc t'(7)]) (use A in auto)
  ultimately show ?thesis using t' by blast
qed

lemma insert_ok:
  assumes so: "strict_order c" and e_eq: "\<And>a b. e a b = (a = b)"
  shows "TreeObject_insert n st self obj = Inr st' \<Longrightarrow> tree_at (objs st) par t
    \<Longrightarrow> ptr t = Some self \<Longrightarrow> distinct (inorder t) \<Longrightarrow> hangs st par self t
    \<Longrightarrow> obj \<notin> set_tree t \<Longrightarrow> Some obj \<noteq> par
    \<Longrightarrow> left_child (objs st obj) = None \<Longrightarrow> right_child (objs st obj) = None
    \<Longrightarrow> (\<forall>x\<in>set_tree t. comparator (objs st x) = Some c \<and> equals (objs st x) = Some e)
    \<Longrightarrow> bstk c (\<lambda>x. key (objs st x)) t
    \<Longrightarrow> (\<forall>x\<in>set_tree t. key (objs st x) \<noteq> key (objs st obj))
    \<Longrightarrow> \<exists>t'. tree_at (objs st') par t' \<and> ptr t' \<noteq> None \<and> set_tree t' = insert obj (set_tree t)
           \<and> distinct (inorder t') \<and> bstk c (\<lambda>x. key (objs st x)) t'
           \<and> relinked st st' par self (ptr t')
           \<and> local_change st st' (insert obj (set_tree t) \<union> set_option par)"
proof (induction n arbitrary: st st' self par t)
  case 0
  then show ?case by simp
next
  case (Suc n)
  obtain l r where t: "t = Node l self r" using Suc.prems(3) ptr_Some by blast
  have trans: "\<forall>x y z. c x y \<longrightarrow> c y z \<longrightarrow> c x z" using so by (auto simp: strict_order_def)
  let ?ko = "key (objs st obj)" and ?ks = "key (objs st self)"
  have at: "comparator (objs st self) = Some c" "equals (objs st self) = Some e" "?ks \<noteq> ?ko"
    using Suc.prems(10,12) t by auto
  have neq: "obj \<noteq> self" "obj \<notin> set_tree l" "obj \<notin> set_tree r" "self \<notin> set_tree l" "self \<notin> set_tree r"
    "set_tree l \<inter> set_tree r = {}" "distinct (inorder l)" "distinct (inorder r)"
    using Suc.prems(4,6) t by auto
  have fields: "parent (objs st self) = par" "left_child (objs st self) = ptr l"
    "right_child (objs st self) = ptr r" "tree_at (objs st) (Some self) l" "tree_at (objs st) (Some self) r"
    using Suc.prems(2) t by auto
  have bst: "bstk c (\<lambda>x. key (objs st x)) l" "bstk c (\<lambda>x. key (objs st x)) r"
    "\<forall>b\<in>set_tree l. c (key (objs st b)) ?ks" "\<forall>b\<in>set_tree r. c ?ks (key (objs st b))"
    using Suc.prems(11) t by auto
  have parq: "\<And>q. par = Some q \<Longrightarrow> q \<noteq> self \<and> q \<noteq> obj \<and> q \<notin> set_tree l \<and> q \<notin> set_tree r"
    using Suc.prems(5,7) t by (auto simp: hangs_def)
  show ?case
  proof (cases "c ?ko ?ks")
    case True
    note less = True
    show ?thesis
    proof (cases l)
      case Leaf
      define st1 where "st1 = set_parent (set_left_child st self (Some obj)) obj (Some self)"
      define t1 where "t1 = Node (Node Leaf obj Leaf) self r"
      have reb: "rebalance st1 self = Inr st'"
        using Suc.prems(1) at less fields Leaf e_eq by (simp add: call_key_def st1_def)
      have ta1: "tree_at (objs st1) par t1"
        using fields neq Suc.prems(8,9) by (simp add: st1_def t1_def)
      have h1: "hangs st1 par self t1"
        using Suc.prems(5) parq by (cases par) (auto simp: hangs_def st1_def t1_def t)
      have b1: "bstk c (\<lambda>x. key (objs st x)) t1"
        using bst less by (simp add: t1_def)
      have lc1: "local_change st st1 {self, obj}"
        by (simp add: local_change_def st1_def)
      from rebalance_after[OF reb ta1 _ _ h1 trans b1 lc1]
      have "\<exists>t'. tree_at (objs st') par t' \<and> ptr t' \<noteq> None \<and> set_tree t' = set_tree t1
           \<and> distinct (inorder t') \<and> bstk c (\<lambda>x. key (objs st x)) t'
           \<and> relinked st st' par self (ptr t')
           \<and> local_change st st' (set_tree t1 \<union> set_option par)"
        using neq by (simp add: t1_def st1_def)
      moreover have "set_tree t1 = insert obj (set_tree t)"
        by (auto simp: t1_def t Leaf)
      ultimately show ?thesis by simp
    next
      case (Node ll lroot lr)
      have lptr: "ptr l = Some lroot" using Node by simp
      obtain st1 where ins: "TreeObject_insert n st lroot obj = Inr st1"
        and reb: "rebalance st1 self = Inr st'"
        using Suc.prems(1) at less fields lptr e_eq
        by (simp add: call_key_def split: sum.splits)
      have hl: "hangs st (Some self) lroot l"
        using fields lptr neq by (simp add: hangs_def)
      have "\<exists>l'. tree_at (objs st1) (Some self) l' \<and> ptr l' \<noteq> None \<and> set_tree l' = insert obj (set_tree l)
           \<and> distinct (inorder l') \<and> bstk c (\<lambda>x. key (objs st x)) l'
           \<and> relinked st st1 (Some self) lroot (ptr l')
           \<and> local_change st st1 (insert obj (set_tree l) \<union> set_option (Some self))"
        using Suc.prems(8,9,10,12) neq bst t
        by (intro Suc.IH[OF ins fields(4) lptr neq(7) hl]) auto
      then obtain l' where l': "tree_at (objs st1) (Some self) l'" "ptr l' \<noteq> None"
        "set_tree l' = insert obj (set_tree l)" "distinct (inorder l')"
        "bstk c (\<lambda>x. key (objs st x)) l'" "relinked st st1 (Some self) lroot (ptr l')"
        "local_change st st1 (insert obj (set_tree l) \<union> {self})"
        by auto
      define t1 where "t1 = Node l' self r"
      have rne: "right_child (objs st self) \<noteq> Some lroot"
        using fields(3) neq(6) Node by (cases r) auto
      have self1: "objs st1 self = (objs st self)\<lparr>left_child := ptr l'\<rparr>" "root_node st1 = root_node st"
        using l'(6) rne by (simp_all add: relinked_def)
      have r1: "tree_at (objs st1) (Some self) r"
        using l'(7) neq fields(5)
        by (subst tree_at_cong[where h = "objs st"]) (auto simp: local_change_def)
      have ta1: "tree_at (objs st1) par t1"
        using self1 fields l' r1 by (simp add: t1_def)
      have d1: "distinct (inorder t1)"
        using l'(3,4) neq by (auto simp: t1_def)
      have h1: "hangs st1 par self t1"
      proof (cases par)
        case None
        then show ?thesis using Suc.prems(5) self1 by (simp add: hangs_def)
      next
        case (Some q)
        then have "objs st1 q = objs st q"
          using parq[OF Some] l'(7) by (simp add: local_change_def)
        then show ?thesis using Some Suc.prems(5) parq[OF Some] l'(3)
          by (auto simp: hangs_def t1_def t)
      qed
      have b1: "bstk c (\<lambda>x. key (objs st x)) t1"
        using bst less l'(3,5) by (simp add: t1_def)
      from rebalance_after[OF reb ta1 _ d1 h1 trans b1 l'(7) _ self1(2)]
      have "\<exists>t'. tree_at (objs st') par t' \<and> ptr t' \<noteq> None \<and> set_tree t' = set_tree t1
           \<and> distinct (inorder t') \<and> bstk c (\<lambda>x. key (objs st x)) t'
           \<and> relinked st st' par self (ptr t')
           \<and> local_change st st' (set_tree t1 \<union> set_option par)"
        using l'(3) by (auto simp: t1_def)
      moreover have "set_tree t1 = insert obj (set_tree t)"
        using l'(3) by (auto simp: t1_def t)
      ultimately show ?thesis by simp
    qed
  next
    case False
    then have gr: "c ?ks ?ko" using so at(3) by (auto simp: strict_order_def)
    note nless = False
    show ?thesis
    proof (cases r)
      case Leaf
      define st1 where "st1 = set_parent (set_right_child st self (Some obj)) obj (Some self)"
      define t1 where "t1 = Node l self (Node Leaf obj Leaf)"
      have reb: "rebalance st1 self = Inr st'"
        using Suc.prems(1) at nless fields Leaf by (simp add: call_key_def st1_def)
      have ta1: "tree_at (objs st1) par t1"
        using fields neq Suc.prems(8,9) by (simp add: st1_def t1_def)
      have h1: "hangs st1 par self t1"
        using Suc.prems(5) parq by (cases par) (auto simp: hangs_def st1_def t1_def t)
      have b1: "bstk c (\<lambda>x. key (objs st x)) t1"
        using bst gr by (simp add: t1_def)
      have lc1: "local_change st st1 {self, obj}"
        by (simp add: local_change_def st1_def)
      from rebalance_after[OF reb ta1 _ _ h1 trans b1 lc1]
      have "\<exists>t'. tree_at (objs st') par t' \<and> ptr t' \<noteq> None \<and> set_tree t' = set_tree t1
           \<and> distinct (inorder t') \<and> bstk c (\<lambda>x. key (objs st x)) t'
           \<and> relinked st st' par self (ptr t')
           \<and> local_change st st' (set_tree t1 \<union> set_option par)"
        using neq by (simp add: t1_def st1_def)
      moreover have "set_tree t1 = insert obj (set_tree t)"
        by (auto simp: t1_def t Leaf)
      ultimately show ?thesis by simp
    next
      case (Node rl rroot rr)
      have rptr: "ptr r = Some rroot" using Node by simp
      obtain st1 where ins: "TreeObject_insert n st rroot obj = Inr st1"
        and reb: "rebalance st1 self = Inr st'"
        using Suc.prems(1) at nless fields rptr
        by (simp add: call_key_def split: sum.splits)
      have hr: "hangs st (Some self) rroot r"
        using fields rptr neq by (simp add: hangs_def)
      have "\<exists>r'. tree_at (objs st1) (Some self) r' \<and> ptr r' \<noteq> None \<and> set_tree r' = insert obj (set_tree r)
           \<and> distinct (inorder r') \<and> bstk c (\<lambda>x. key (objs st x)) r'
           \<and> relinked st st1 (Some self) rroot (ptr r')
           \<and> local_change st st1 (insert obj (set_tree r) \<union> set_option (Some self))"
        using Suc.prems(8,9,10,12) neq bst t
        by (intro Suc.IH[OF ins fields(5) rptr neq(8) hr]) auto
      then obtain r' where r': "tree_at (objs st1) (Some self) r'" "ptr r' \<noteq> None"
        "set_tree r' = insert obj (set_tree r)" "distinct (inorder r')"
        "bstk c (\<lambda>x. key (objs st x)) r'" "relinked st st1 (Some self) rroot (ptr r')"
        "local_change st st1 (insert obj (set_tree r) \<union> {self})"
        by auto
      define t1 where "t1 = Node l self r'"
      have self1: "objs st1 self = (objs st self)\<lparr>right_child := ptr r'\<rparr>" "root_node st1 = root_node st"
        using r'(6) fields(3) rptr by (simp_all add: relinked_def)
      have l1: "tree_at (objs st1) (Some self) l"
        using r'(7) neq fields(4)
        by (subst tree_at_cong[where h = "objs st"]) (auto simp: local_change_def)
      have ta1: "tree_at (objs st1) par t1"
        using self1 fields r' l1 by (simp add: t1_def)
      have d1: "distinct (inorder t1)"
        using r'(3,4) neq by (auto simp: t1_def)
      have h1: "hangs st1 par self t1"
      proof (cases par)
        case None
        then show ?thesis using Suc.prems(5) self1 by (simp add: hangs_def)
      next
        case (Some q)
        then have "objs st1 q = objs st q"
          using parq[OF Some] r'(7) by (simp add: local_change_def)
        then show ?thesis using Some Suc.prems(5) parq[OF Some] r'(3)
          by (auto simp: hangs_def t1_def t)
      qed
      have b1: "bstk c (\<lambda>x. key (objs st x)) t1"
        using bst gr r'(3,5) by (simp add: t1_def)
      from rebalance_after[OF reb ta1 _ d1 h1 trans b1 r'(7) _ self1(2)]
      have "\<exists>t'. tree_at (objs st') par t' \<and> ptr t' \<noteq> None \<and> set_tree t' = set_tree t1
           \<and> distinct (inorder t') \<and> bstk c (\<lambda>x. key (objs st x)) t'
           \<and> relinked st st' par self (ptr t')
           \<and> local_change st st' (set_tree t1 \<union> set_option par)"
        using r'(3) by (auto simp: t1_def)
      moreover have "set_tree t1 = insert obj (set_tree t)"
        using r'(3) by (auto simp: t1_def t)
      ultimately show ?thesis by simp
    qed
  qed
qed

lemma pop_lowest_ok:
  assumes trans: "\<forall>x y z. c x y \<longrightarrow> c y z \<longrightarrow> c x z"
  shows "TreeObject_pop_lowest n st self = Inr (v, st') \<Longrightarrow> tree_at (objs st) par t
    \<Longrightarrow> ptr t = Some self \<Longrightarrow> distinct (inorder t)
    \<Longrightarrow> (case par of None \<Rightarrow> root_node st = Some self
         | Some q \<Rightarrow> q \<notin> set_tree t \<and> left_child (objs st q) = Some self)
    \<Longrightarrow> bstk c (\<lambda>x. key (objs st x)) t
    \<Longrightarrow> \<exists>m t'. m \<in> set_tree t \<and> v = val (objs st m) \<and> set_tree t' = set_tree t - {m}
           \<and> distinct (inorder t') \<and> bstk c (\<lambda>x. key (objs st x)) t'
           \<and> (\<forall>x\<in>set_tree t'. c (key (objs st m)) (key (objs st x)))
           \<and> tree_at (objs st') par t'
           \<and> (case par of None \<Rightarrow> root_node st' = ptr t'
               | Some q \<Rightarrow> root_node st' = root_node st
                   \<and> objs st' q = (objs st q)\<lparr>left_child := ptr t'\<rparr>)
           \<and> local_change st st' (set_tree t \<union> set_option par)"
proof (induction n arbitrary: st st' self par t)
  case 0
  then show ?case by simp
next
  case (Suc n)
  obtain l r where t: "t = Node l self r" using Suc.prems(3) ptr_Some by blast
  have neq: "self \<notin> set_tree l" "self \<notin> set_tree r"
    "set_tree l \<inter> set_tree r = {}" "distinct (inorder l)" "distinct (inorder r)"
    using Suc.prems(4) t by auto
  have fields: "parent (objs st self) = par" "left_child (objs st self) = ptr l"
    "right_child (objs st self) = ptr r" "tree_at (objs st) (Some self) l" "tree_at (objs st) (Some self) r"
    using Suc.prems(2) t by auto
  have bst: "bstk c (\<lambda>x. key (objs st x)) l" "bstk c (\<lambda>x. key (objs st x)) r"
    "\<forall>b\<in>set_tree l. c (key (objs st b)) (key (objs st self))"
    "\<forall>b\<in>set_tree r. c (key (objs st self)) (key (objs st b))"
    using Suc.prems(6) t by auto
  have parq: "\<And>q. par = Some q \<Longrightarrow> q \<noteq> self \<and> q \<notin> set_tree l \<and> q \<notin> set_tree r
      \<and> left_child (objs st q) = Some self"
    using Suc.prems(5) t by auto
  show ?case
  proof (cases l)
    case Leaf
    define st1 where "st1 = (case par of Some p \<Rightarrow> set_left_child st p (ptr r)
                                        | None \<Rightarrow> st\<lparr>root_node := ptr r\<rparr>)"
    have st1a: "objs st1 self = objs st self"
      using parq by (cases par) (simp_all add: st1_def)
    have st1b: "objs st1 x = objs st x" if "x \<in> set_tree r" for x
      using parq that by (cases par) (auto simp: st1_def)
    note st1 = st1a st1b
    have res: "v = val (objs st self)"
      "st' = (case ptr r of Some c \<Rightarrow> set_parent st1 c par | None \<Rightarrow> st1)"
      using Suc.prems(1) fields Leaf st1(1)
      by (auto simp: Let_def st1_def split: option.splits)
    have tr: "tree_at (objs st') par r"
    proof (cases r)
      case Leaf then show ?thesis by simp
    next
      case (Node rl c rr)
      have "tree_at (objs st) (Some self) r" by (rule fields(5))
      then show ?thesis
      proof (rule tree_at_reparent)
        show "distinct (inorder r)" by (rule neq(5))
        show "objs st' x = objs st x" if "x \<in> set_tree r" "Some x \<noteq> ptr r" for x
          using that st1(2) Node by (simp add: res(2))
        show "objs st' ca = (objs st ca)\<lparr>parent := par\<rparr>" if "ptr r = Some ca" for ca
          using that st1(2) Node by (simp add: res(2))
      qed
    qed
    have lk: "(case par of None \<Rightarrow> root_node st' = ptr r
               | Some q \<Rightarrow> root_node st' = root_node st
                   \<and> objs st' q = (objs st q)\<lparr>left_child := ptr r\<rparr>)"
      using parq by (cases par; cases r) (auto simp: res(2) st1_def)
    have lc: "local_change st st' (set_tree t \<union> set_option par)"
      by (cases par; cases r) (auto simp: res(2) st1_def local_change_def t)
    show ?thesis
      using res(1) neq bst tr lk lc Leaf t
      by (intro exI[of _ self] exI[of _ r]) auto
  next
    case (Node ll lroot lr)
    have lptr: "ptr l = Some lroot" using Node by simp
    have rec: "TreeObject_pop_lowest n st lroot = Inr (v, st')"
      using Suc.prems(1) fields lptr by simp
    have "\<exists>m l'. m \<in> set_tree l \<and> v = val (objs st m) \<and> set_tree l' = set_tree l - {m}
           \<and> distinct (inorder l') \<and> bstk c (\<lambda>x. key (objs st x)) l'
           \<and> (\<forall>x\<in>set_tree l'. c (key (objs st m)) (key (objs st x)))
           \<and> tree_at (objs st') (Some self) l'
           \<and> (case Some self of None \<Rightarrow> root_node st' = ptr l'
               | Some q \<Rightarrow> root_node st' = root_node st
                   \<and> objs st' q = (objs st q)\<lparr>left_child := ptr l'\<rparr>)
           \<and> local_change st st' (set_tree l \<union> set_option (Some self))"
      using neq fields lptr bst
      by (intro Suc.IH[OF rec fields(4) lptr neq(4)]) auto
    then obtain m l' where ml: "m \<in> set_tree l" "v = val (objs st m)" "set_tree l' = set_tree l - {m}"
      "distinct (inorder l')" "bstk c (\<lambda>x. key (objs st x)) l'"
      "\<forall>x\<in>set_tree l'. c (key (objs st m)) (key (objs st x))"
      "tree_at (objs st') (Some self) l'" "root_node st' = root_node st"
      "objs st' self = (objs st self)\<lparr>left_child := ptr l'\<rparr>"
      "local_change st st' (set_tree l \<union> {self})"
      by auto
    define t1 where "t1 = Node l' self r"
    have r1: "tree_at (objs st') (Some self) r"
      using ml(10) neq fields(5)
      by (subst tree_at_cong[where h = "objs st"]) (auto simp: local_change_def)
    have ta1: "tree_at (objs st') par t1"
      using ml fields r1 by (simp add: t1_def)
    have "m \<noteq> self" "m \<notin> set_tree r" using ml(1) neq by auto
    then have s1: "set_tree t1 = set_tree t - {m}"
      using ml(3) by (auto simp: t1_def t)
    have d1: "distinct (inorder t1)"
      using ml(3,4) neq by (auto simp: t1_def)
    have b1: "bstk c (\<lambda>x. key (objs st x)) t1"
      using bst ml(3,5) by (simp add: t1_def)
    have cm: "c (key (objs st m)) (key (objs st self))" using bst(3) ml(1) by simp
    have min: "\<forall>x\<in>set_tree t1. c (key (objs st m)) (key (objs st x))"
      using ml(6) cm bst(4) trans by (auto simp: t1_def)
    have lk: "(case par of None \<Rightarrow> root_node st' = ptr t1
               | Some q \<Rightarrow> root_node st' = root_node st
                   \<and> objs st' q = (objs st q)\<lparr>left_child := ptr t1\<rparr>)"
    proof (cases par)
      case None
      then show ?thesis using Suc.prems(5) ml(8) by (simp add: t1_def)
    next
      case (Some q)
      then have "objs st' q = objs st q"
        using parq[OF Some] ml(10) by (simp add: local_change_def)
      then show ?thesis using Some parq[OF Some] ml(8) by (simp add: t1_def)
    qed
    have lc: "local_change st st' (set_tree t \<union> set_option par)"
      by (rule local_change_mono[OF ml(10)]) (auto simp: t)
    show ?thesis
      using ml(1,2) s1 d1 b1 min ta1 lk lc t
      by (intro exI[of _ m] exI[of _ t1]) auto
  qed
qed

lemma is_in_ok:
  assumes so: "strict_order c" and e_eq: "\<And>a b. e a b = (a = b)"
  shows "TreeObject_is_in n st self k = Inr False \<Longrightarrow> tree_at (objs st) par t
    \<Longrightarrow> ptr t = Some self
    \<Longrightarrow> (\<forall>x\<in>set_tree t. comparator (objs st x) = Some c \<and> equals (objs st x) = Some e)
    \<Longrightarrow> bstk c (\<lambda>x. key (objs st x)) t
    \<Longrightarrow> \<forall>x\<in>set_tree t. key (objs st x) \<noteq> k"
proof (induction n arbitrary: self par t)
  case 0
  then show ?case by simp
next
  case (Suc n)
  obtain l r where t: "t = Node l self r" using Suc.prems(3) ptr_Some by blast
  have at: "comparator (objs st self) = Some c" "equals (objs st self) = Some e"
    using Suc.prems(4) t by auto
  have fields: "left_child (objs st self) = ptr l"
    "right_child (objs st self) = ptr r" "tree_at (objs st) (Some self) l" "tree_at (objs st) (Some self) r"
    using Suc.prems(2) t by auto
  have bst: "bstk c (\<lambda>x. key (objs st x)) l" "bstk c (\<lambda>x. key (objs st x)) r"
    "\<forall>b\<in>set_tree l. c (key (objs st b)) (key (objs st self))"
    "\<forall>b\<in>set_tree r. c (key (objs st self)) (key (objs st b))"
    using Suc.prems(5) t by auto
  have irr: "\<And>a. \<not> c a a" and tr: "\<And>a b d. c a b \<Longrightarrow> c b d \<Longrightarrow> c a d"
    and tot: "\<And>a b. a \<noteq> b \<Longrightarrow> c a b \<or> c b a"
    using so unfolding strict_order_def by blast+
  have ne: "k \<noteq> key (objs st self)"
    using Suc.prems(1) at e_eq by (auto simp: call_key_def split: if_splits bool.splits)
  show ?case
  proof (cases "c k (key (objs st self))")
    case True
    have right: "\<forall>x\<in>set_tree r. key (objs st x) \<noteq> k"
      using bst(4) True irr tr by blast
    have left: "\<forall>x\<in>set_tree l. key (objs st x) \<noteq> k"
    proof (cases l)
      case Leaf then show ?thesis by simp
    next
      case (Node ll lroot lr)
      then have lptr: "ptr l = Some lroot" by simp
      have "TreeObject_is_in n st lroot k = Inr False"
        using Suc.prems(1) at e_eq ne True fields lptr by (simp add: call_key_def)
      from Suc.IH[OF this fields(3) lptr _ bst(1)] Suc.prems(4) t show ?thesis by auto
    qed
    show ?thesis using left right ne t by auto
  next
    case False
    then have gr: "c (key (objs st self)) k" using tot ne by blast
    have left: "\<forall>x\<in>set_tree l. key (objs st x) \<noteq> k"
      using bst(3) gr irr tr by blast
    have right: "\<forall>x\<in>set_tree r. key (objs st x) \<noteq> k"
    proof (cases r)
      case Leaf then show ?thesis by simp
    next
      case (Node rl rroot rr)
      then have rptr: "ptr r = Some rroot" by simp
      have "TreeObject_is_in n st rroot k = Inr False"
        using Suc.prems(1) at e_eq ne False fields rptr by (simp add: call_key_def)
      from Suc.IH[OF this fields(4) rptr _ bst(2)] Suc.prems(4) t show ?thesis by auto
    qed
    show ?thesis using left right ne t by auto
  qed
qed

lemma bstk_cong: "(\<And>x. x \<in> set_tree t \<Longrightarrow> f x = g x) \<Longrightarrow> bstk c f t = bstk c g t"
  by (induction t) auto

lemma AvlTree_insert_ok:
  assumes so: "strict_order c" and e_eq: "\<And>a b. e a b = (a = b)"
    and ins: "AvlTree_insert q (k, v) = Inr q'"
    and inv: "tree_inv c e q t"
    and fresh: "\<forall>x\<in>set_tree t. key (objs q x) \<noteq> k"
  shows "\<exists>t'. tree_inv c e q' t' \<and> pairs_of q' t' = insert (k, v) (pairs_of q t)"
proof (cases t)
  case Leaf
  then have "root_node q = None" using inv by (simp add: tree_inv_def)
  then have q': "q' = (snd (TreeObject_init q k v (Some c) (Some e)))\<lparr>root_node := Some (count q)\<rparr>"
    using ins inv by (auto simp: AvlTree_insert_def TreeObject_init_def tree_inv_def)
  show ?thesis
    unfolding q' using inv Leaf
    by (intro exI[of _ "Node Leaf (count q) Leaf"])
       (simp add: tree_inv_def pairs_of_def TreeObject_init_def)
next
  case (Node l rt r)
  then have rt: "root_node q = Some rt" "ptr t = Some rt" using inv by (simp_all add: tree_inv_def)
  define obj where "obj = count q"
  define st where "st = snd (TreeObject_init q k v (Some c) (Some e))"
  have st: "objs st = (objs q)(obj := \<lparr>key = k, val = v, left_child = None, right_child = None,
               parent = None, comparator = Some c, equals = Some e\<rparr>)"
    "count st = Suc (count q)" "root_node st = root_node q"
    "tree_comparator st = c" "tree_equals st = e"
    using inv by (simp_all add: st_def obj_def TreeObject_init_def tree_inv_def)
  have objt: "obj \<notin> set_tree t" using inv by (auto simp: obj_def tree_inv_def)
  then have same: "\<And>x. x \<in> set_tree t \<Longrightarrow> objs st x = objs q x" by (auto simp: st)
  have "AvlTree_insert q (k, v) =
      (case TreeObject_insert (count st) st rt obj of
         Inl e \<Rightarrow> Inl e
       | Inr t2 \<Rightarrow> (case AvlTree_check_balance t2 of Inl e \<Rightarrow> Inl e | Inr b \<Rightarrow> Inr t2))"
    using rt inv
    by (simp add: AvlTree_insert_def TreeObject_init_def st_def obj_def tree_inv_def
        del: TreeObject_insert.simps)
  with ins have ins2: "TreeObject_insert (count st) st rt obj = Inr q'"
    by (auto split: sum.splits)
  have ta: "tree_at (objs st) None t"
    using inv objt by (simp add: st tree_inv_def)
  have kf: "bstk c (\<lambda>x. key (objs st x)) t"
    using same inv by (subst bstk_cong[where g = "\<lambda>x. key (objs q x)"]) (auto simp: tree_inv_def)
  have hg: "hangs st None rt t" using rt st by (simp add: hangs_def)
  have at: "\<forall>x\<in>set_tree t. comparator (objs st x) = Some c \<and> equals (objs st x) = Some e"
    using same inv by (auto simp: tree_inv_def)
  have fr: "\<forall>x\<in>set_tree t. key (objs st x) \<noteq> key (objs st obj)"
    using same fresh by (auto simp: st)
  have dist: "distinct (inorder t)" using inv by (simp add: tree_inv_def)
  have "\<exists>t'. tree_at (objs q') None t' \<and> ptr t' \<noteq> None \<and> set_tree t' = insert obj (set_tree t)
           \<and> distinct (inorder t') \<and> bstk c (\<lambda>x. key (objs st x)) t'
           \<and> relinked st q' None rt (ptr t')
           \<and> local_change st q' (insert obj (set_tree t) \<union> set_option None)"
    by (rule insert_ok[OF so e_eq ins2 ta rt(2) dist hg objt _ _ _ at kf fr]) (simp_all add: st)
  then obtain t' where t': "tree_at (objs q') None t'" "set_tree t' = insert obj (set_tree t)"
    "distinct (inorder t')" "bstk c (\<lambda>x. key (objs st x)) t'" "root_node q' = ptr t'"
    "local_change st q' (insert obj (set_tree t))"
    by (auto simp: relinked_def)
  have lc: "count q' = Suc (count q)" "tree_comparator q' = c" "tree_equals q' = e"
    "\<And>x. key (objs q' x) = key (objs st x)" "\<And>x. val (objs q' x) = val (objs st x)"
    "\<And>x. comparator (objs q' x) = comparator (objs st x)"
    "\<And>x. equals (objs q' x) = equals (objs st x)"
    using t'(6) st by (simp_all add: local_change_def)
  have b': "bstk c (\<lambda>x. key (objs q' x)) t'"
    using t'(4) lc(4) by simp
  have a': "\<forall>x\<in>set_tree t'. x < count q' \<and> comparator (objs q' x) = Some c \<and> equals (objs q' x) = Some e"
    using inv t'(2) lc same by (auto simp: tree_inv_def st obj_def)
  have p': "pairs_of q' t' = insert (k, v) (pairs_of q t)"
    using same objt by (auto simp: pairs_of_def t'(2) lc st image_iff)
  show ?thesis
    using t' b' a' p' lc by (intro exI[of _ t']) (simp add: tree_inv_def)
qed

lemma AvlTree_pop_lowest_ok:
  assumes trans: "\<forall>x y z. c x y \<longrightarrow> c y z \<longrightarrow> c x z"
    and pop: "AvlTree_pop_lowest q = Inr (res, q')"
    and inv: "tree_inv c e q t"
    and ne: "root_node q \<noteq> None"
  shows "\<exists>k v t'. res = Some v \<and> (k, v) \<in> pairs_of q t \<and> tree_inv c e q' t'
           \<and> pairs_of q' t' \<subseteq> pairs_of q t \<and> (\<forall>(k', v')\<in>pairs_of q' t'. c k k')"
proof -
  obtain rt where rt: "root_node q = Some rt" "ptr t = Some rt"
    using ne inv by (auto simp: tree_inv_def)
  obtain v where pop2: "TreeObject_pop_lowest (count q) q rt = Inr (v, q')" and res: "res = Some v"
    using pop rt by (auto simp: AvlTree_pop_lowest_def split: sum.splits)
  have "\<exists>m t'. m \<in> set_tree t \<and> v = val (objs q m) \<and> set_tree t' = set_tree t - {m}
           \<and> distinct (inorder t') \<and> bstk c (\<lambda>x. key (objs q x)) t'
           \<and> (\<forall>x\<in>set_tree t'. c (key (objs q m)) (key (objs q x)))
           \<and> tree_at (objs q') None t'
           \<and> (case None of None \<Rightarrow> root_node q' = ptr t'
               | Some p \<Rightarrow> root_node q' = root_node q
                   \<and> objs q' p = (objs q p)\<lparr>left_child := ptr t'\<rparr>)
           \<and> local_change q q' (set_tree t \<union> set_option None)"
    using inv rt by (intro pop_lowest_ok[OF trans pop2]) (auto simp: tree_inv_def)
  then obtain m t' where m: "m \<in> set_tree t" "v = val (objs q m)" "set_tree t' = set_tree t - {m}"
    "distinct (inorder t')" "bstk c (\<lambda>x. key (objs q x)) t'"
    "\<forall>x\<in>set_tree t'. c (key (objs q m)) (key (objs q x))"
    "tree_at (objs q') None t'" "root_node q' = ptr t'" "local_change q q' (set_tree t)"
    by auto
  have lc: "count q' = count q" "tree_comparator q' = c" "tree_equals q' = e"
    "\<And>x. key (objs q' x) = key (objs q x)" "\<And>x. val (objs q' x) = val (objs q x)"
    "\<And>x. comparator (objs q' x) = comparator (objs q x)"
    "\<And>x. equals (objs q' x) = equals (objs q x)"
    using m(9) inv by (simp_all add: local_change_def tree_inv_def)
  have "tree_inv c e q' t'"
    using m inv lc by (auto simp: tree_inv_def)
  moreover have "(key (objs q m), v) \<in> pairs_of q t"
    using m(1,2) by (auto simp: pairs_of_def)
  moreover have "pairs_of q' t' \<subseteq> pairs_of q t"
    using m(3) lc by (auto simp: pairs_of_def)
  moreover have "\<forall>(k', v')\<in>pairs_of q' t'. c (key (objs q m)) k'"
    using m(6) lc by (auto simp: pairs_of_def)
  ultimately show ?thesis using res by blast
qed

lemma AvlTree_is_in_ok:
  assumes so: "strict_order c" and e_eq: "\<And>a b. e a b = (a = b)"
    and isin: "AvlTree_is_in q k = Inr False"
    and inv: "tree_inv c e q t"
  shows "\<forall>x\<in>set_tree t. key (objs q x) \<noteq> k"
proof (cases t)
  case Leaf
  then show ?thesis by simp
next
  case (Node l rt r)
  then have rt: "root_node q = Some rt" "ptr t = Some rt" using inv by (simp_all add: tree_inv_def)
  have "TreeObject_is_in (count q) q rt k = Inr False"
    using isin rt by (simp add: AvlTree_is_in_def)
  from is_in_ok[OF so e_eq this _ rt(2)] inv show ?thesis
    by (auto simp: tree_inv_def)
qed

lemma insert_each_ok:
  assumes so: "strict_order c" and e_eq: "\<And>a b. e a b = (a = b)"
  shows "insert_each q es = Inr q' \<Longrightarrow> tree_inv c e q t \<Longrightarrow> distinct (map fst es)
    \<Longrightarrow> (\<forall>x\<in>set_tree t. key (objs q x) \<notin> fst ` set es)
    \<Longrightarrow> \<exists>t'. tree_inv c e q' t' \<and> pairs_of q' t' = pairs_of q t \<union> set es"
proof (induction es arbitrary: q t)
  case Nil
  then show ?case by auto
next
  case (Cons el es)
  obtain k v where el: "el = (k, v)" by (cases el)
  obtain q1 where i1: "AvlTree_insert q (k, v) = Inr q1" and rest: "insert_each q1 es = Inr q'"
    using Cons.prems(1) el by (auto split: sum.splits)
  have "\<forall>x\<in>set_tree t. key (objs q x) \<noteq> k" using Cons.prems(4) el by auto
  from AvlTree_insert_ok[OF so e_eq i1 Cons.prems(2) this]
  obtain t1 where t1: "tree_inv c e q1 t1" "pairs_of q1 t1 = insert (k, v) (pairs_of q t)" by blast
  have "\<forall>x\<in>set_tree t1. key (objs q1 x) \<notin> fst ` set es"
  proof
    fix x assume "x \<in> set_tree t1"
    then have "(key (objs q1 x), val (objs q1 x)) \<in> insert (k, v) (pairs_of q t)"
      using t1(2) by (auto simp: pairs_of_def)
    then have "key (objs q1 x) = k \<or> (\<exists>y\<in>set_tree t. key (objs q1 x) = key (objs q y))"
      by (auto simp: pairs_of_def)
    moreover have "k \<notin> fst ` set es" using Cons.prems(3) el by auto
    moreover have "\<forall>y\<in>set_tree t. key (objs q y) \<notin> fst ` set es" using Cons.prems(4) by auto
    ultimately show "key (objs q1 x) \<notin> fst ` set es" by metis
  qed
  from Cons.IH[OF rest t1(1) _ this] Cons.prems(3)
  obtain t' where "tree_inv c e q' t'" "pairs_of q' t' = pairs_of q1 t1 \<union> set es" by auto
  then show ?case using t1(2) el by auto
qed

lemma AvlTree_init_ok:
  assumes so: "strict_order c" and e_eq: "\<And>a b. e a b = (a = b)"
    and init: "snd (AvlTree_init es (Some c) (Some e)) = Inr q"
    and dist: "distinct (map fst es)"
  shows "\<exists>t. tree_inv c e q t \<and> pairs_of q t = set es"
proof (cases es)
  case Nil
  then have "q = \<lparr>root_node = None, objs = (\<lambda>r. undefined), count = 0, tree_comparator = c, tree_equals = e\<rparr>"
    using init by (simp add: AvlTree_init_def)
  then show ?thesis using Nil
    by (intro exI[of _ Leaf]) (simp add: tree_inv_def pairs_of_def)
next
  case (Cons el rest)
  obtain k v where el: "el = (k, v)" by (cases el)
  define q0 where "q0 = \<lparr>root_node = Some 0,
     objs = (\<lambda>r. undefined)(0 := \<lparr>key = k, val = v, left_child = None, right_child = None,
        parent = None, comparator = Some c, equals = Some e\<rparr>),
     count = Suc 0, tree_comparator = c, tree_equals = e\<rparr>"
  have inv0: "tree_inv c e q0 (Node Leaf 0 Leaf)" "pairs_of q0 (Node Leaf 0 Leaf) = {(k, v)}"
    by (simp_all add: tree_inv_def q0_def pairs_of_def)
  have "snd (AvlTree_init es (Some c) (Some e)) = insert_each q0 rest"
  proof (cases rest)
    case Nil
    then show ?thesis using Cons el
      by (simp add: AvlTree_init_def TreeObject_init_def q0_def)
  next
    case (Cons a list)
    then show ?thesis using \<open>es = el # rest\<close> el
      by (simp add: AvlTree_init_def TreeObject_init_def q0_def)
         (subst AvlTree_insert_list.simps, simp)
  qed
  with init have ie: "insert_each q0 rest = Inr q" by simp
  have "\<forall>x\<in>set_tree (Node Leaf 0 Leaf). key (objs q0 x) \<notin> fst ` set rest"
    using dist Cons el by (auto simp: q0_def)
  from insert_each_ok[OF so e_eq ie inv0(1) _ this] dist Cons
  obtain t where "tree_inv c e q t" "pairs_of q t = pairs_of q0 (Node Leaf 0 Leaf) \<union> set rest"
    by auto
  then show ?thesis using inv0(2) Cons el by auto
qed

subsection \<open>Neighbours of a key that is not stored\<close>

text \<open>
  On a tree that satisfies the invariant, whenever \<^verbatim>\<open>find_neighbors\<close> returns for a key
  that no node has, it returns \<^verbatim>\<open>(None, None)\<close>: the example of claim C7 shows the rule.
\<close>

lemma find_left_neighbor_absent:
  assumes e_eq: "\<And>a b. e a b = (a = b)"
  shows "find_left_neighbor n st self k = Inr res \<Longrightarrow> tree_at (objs st) par t
    \<Longrightarrow> ptr t = Some self
    \<Longrightarrow> (\<forall>x\<in>set_tree t. comparator (objs st x) = Some c \<and> equals (objs st x) = Some e)
    \<Longrightarrow> (\<forall>x\<in>set_tree t. key (objs st x) \<noteq> k)
    \<Longrightarrow> res = None"
proof (induction n arbitrary: self par t)
  case 0
  then show ?case by simp
next
  case (Suc n)
  obtain l r where t: "t = Node l self r" using Suc.prems(3) ptr_Some by blast
  have at: "comparator (objs st self) = Some c" "equals (objs st self) = Some e"
    "k \<noteq> key (objs st self)"
    using Suc.prems(4,5) t by auto
  have fields: "left_child (objs st self) = ptr l"
    "right_child (objs st self) = ptr r" "tree_at (objs st) (Some self) l" "tree_at (objs st) (Some self) r"
    using Suc.prems(2) t by auto
  show ?case
  proof (cases "c k (key (objs st self))")
    case True
    show ?thesis
    proof (cases l)
      case Leaf
      then show ?thesis using Suc.prems(1) at e_eq True fields by (simp add: call_key_def)
    next
      case (Node ll lroot lr)
      then have lptr: "ptr l = Some lroot" by simp
      have "find_left_neighbor n st lroot k = Inr res"
        using Suc.prems(1) at e_eq True fields lptr by (simp add: call_key_def)
      from Suc.IH[OF this fields(3) lptr] Suc.prems(4,5) t show ?thesis by auto
    qed
  next
    case False
    show ?thesis
    proof (cases r)
      case Leaf
      then show ?thesis using Suc.prems(1) at e_eq False fields by (simp add: call_key_def)
    next
      case (Node rl rroot rr)
      then have rptr: "ptr r = Some rroot" by simp
      have "find_left_neighbor n st rroot k = Inr res"
        using Suc.prems(1) at e_eq False fields rptr by (simp add: call_key_def)
      from Suc.IH[OF this fields(4) rptr] Suc.prems(4,5) t show ?thesis by auto
    qed
  qed
qed

lemma find_right_neighbor_absent:
  assumes e_eq: "\<And>a b. e a b = (a = b)"
  shows "find_right_neighbor n st self k = Inr res \<Longrightarrow> tree_at (objs st) par t
    \<Longrightarrow> ptr t = Some self
    \<Longrightarrow> (\<forall>x\<in>set_tree t. comparator (objs st x) = Some c \<and> equals (objs st x) = Some e)
    \<Longrightarrow> (\<forall>x\<in>set_tree t. key (objs st x) \<noteq> k)
    \<Longrightarrow> res = None"
proof (induction n arbitrary: self par t)
  case 0
  then show ?case by simp
next
  case (Suc n)
  obtain l r where t: "t = Node l self r" using Suc.prems(3) ptr_Some by blast
  have at: "comparator (objs st self) = Some c" "equals (objs st self) = Some e"
    "k \<noteq> key (objs st self)"
    using Suc.prems(4,5) t by auto
  have fields: "left_child (objs st self) = ptr l"
    "right_child (objs st self) = ptr r" "tree_at (objs st) (Some self) l" "tree_at (objs st) (Some self) r"
    using Suc.prems(2) t by auto
  show ?case
  proof (cases "c k (key (objs st self))")
    case True
    show ?thesis
    proof (cases l)
      case Leaf
      then show ?thesis using Suc.prems(1) at e_eq True fields by (simp add: call_key_def)
    next
      case (Node ll lroot lr)
      then have lptr: "ptr l = Some lroot" by simp
      have "find_right_neighbor n st lroot k = Inr res"
        using Suc.prems(1) at e_eq True fields lptr by (simp add: call_key_def)
      from Suc.IH[OF this fields(3) lptr] Suc.prems(4,5) t show ?thesis by auto
    qed
  next
    case False
    show ?thesis
    proof (cases r)
      case Leaf
      then show ?thesis using Suc.prems(1) at e_eq False fields by (simp add: call_key_def)
    next
      case (Node rl rroot rr)
      then have rptr: "ptr r = Some rroot" by simp
      have "find_right_neighbor n st rroot k = Inr res"
        using Suc.prems(1) at e_eq False fields rptr by (simp add: call_key_def)
      from Suc.IH[OF this fields(4) rptr] Suc.prems(4,5) t show ?thesis by auto
    qed
  qed
qed

lemma find_neighbors_absent:
  assumes e_eq: "\<And>a b. e a b = (a = b)"
    and inv: "tree_inv c e q t"
    and absent: "\<forall>x\<in>set_tree t. key (objs q x) \<noteq> k"
    and res: "AvlTree_find_neighbors q k = Inr (lv, rv)"
  shows "lv = None \<and> rv = None"
proof (cases t)
  case Leaf
  then have "root_node q = None" using inv by (simp add: tree_inv_def)
  then show ?thesis using res by (simp add: AvlTree_find_neighbors_def)
next
  case (Node l rt r)
  then have rt: "root_node q = Some rt" "ptr t = Some rt" using inv by (simp_all add: tree_inv_def)
  have at: "\<forall>x\<in>set_tree t. comparator (objs q x) = Some c \<and> equals (objs q x) = Some e"
    and ta: "tree_at (objs q) None t"
    using inv by (auto simp: tree_inv_def)
  have L: "value_or_none q (find_left_neighbor (count q) q rt k) = Inr lv"
    and R: "value_or_none q (find_right_neighbor (count q) q rt k) = Inr rv"
    using res rt by (auto simp: AvlTree_find_neighbors_def TreeObject_find_neighbors_def split: sum.splits)
  have "lv = None"
  proof (cases "find_left_neighbor (count q) q rt k")
    case (Inl err)
    then show ?thesis using L by (cases err) (simp_all add: value_or_none_def)
  next
    case (Inr x)
    from find_left_neighbor_absent[OF e_eq Inr ta rt(2) at absent] Inr L
    show ?thesis by (simp add: value_or_none_def)
  qed
  moreover have "rv = None"
  proof (cases "find_right_neighbor (count q) q rt k")
    case (Inl err)
    then show ?thesis using R by (cases err) (simp_all add: value_or_none_def)
  next
    case (Inr x)
    from find_right_neighbor_absent[OF e_eq Inr ta rt(2) at absent] Inr R
    show ?thesis by (simp add: value_or_none_def)
  qed
  ultimately show ?thesis by simp
qed

section \<open>Properties of the sweep\<close>




text \<open>
  Claim C3 says that for parallel segments \<^verbatim>\<open>line_intersection\<close> reports no intersection
  and \<^verbatim>\<open>find_new_event\<close> completes without raising.  For the vertical segments from
  \<open>(0, 0)\<close> to \<open>(0, 2)\<close> and from \<open>(1, 0)\<close> to \<open>(1, 2)\<close>, \<^verbatim>\<open>line_intersection\<close> returns the pair
  \<^verbatim>\<open>(None, None)\<close>, and \<^verbatim>\<open>find_new_event\<close> raises \<^verbatim>\<open>TypeError\<close> in every state and for
  every event point.
\<close>

theorem parallel_segments_raise:
  "line_intersection
      (Line_init \<lparr>x_position = 0, y_position = 0\<rparr> \<lparr>x_position = 0, y_position = 2\<rparr>)
      (Line_init \<lparr>x_position = 1, y_position = 0\<rparr> \<lparr>x_position = 1, y_position = 2\<rparr>) = NonePair
   \<and> find_new_event
        (s\<lparr>line_objs :=
             [Line_init \<lparr>x_position = 0, y_position = 0\<rparr> \<lparr>x_position = 0, y_position = 2\<rparr>,
              Line_init \<lparr>x_position = 1, y_position = 0\<rparr> \<lparr>x_position = 1, y_position = 2\<rparr>]\<rparr>)
        0 1 point = Inl TypeError"
  by (simp add: find_new_event_def line_intersection_def Line_init_def linalg_solve_def)

text \<open>The same pair of segments as input of the whole search.\<close>

lemma search_parallel_segments_raises:
  "map_option (map_sum id fst) (search_intersections [((0, 0), (0, 2)), ((1, 0), (1, 2))])
     = Some (Inl TypeError)"
  by code_simp

text \<open>
  Claim C1.  For the input \<open>[((0,0),(2,2)), ((0,2),(2,0))]\<close>, \<^verbatim>\<open>search_intersections\<close>
  returns exactly one record; its point has the coordinates \<open>(1, 1)\<close> and its list of
  segments holds both line objects, which are the two segments of the input.
\<close>

theorem two_crossing_segments:
  "(case search_intersections [((0, 0), (2, 2)), ((0, 2), (2, 0))] of
      Some (Inr (records, s)) \<Rightarrow>
        records = [(\<lparr>x_position = 1, y_position = 1\<rparr>, [0, 1])]
        \<and> map (\<lambda>l. (upper l, lower l)) (line_objs s)
            = [(\<lparr>x_position = 2, y_position = 2\<rparr>, \<lparr>x_position = 0, y_position = 0\<rparr>),
               (\<lparr>x_position = 0, y_position = 2\<rparr>, \<lparr>x_position = 2, y_position = 0\<rparr>)]
    | _ \<Rightarrow> False)"
  by code_simp

subsection \<open>The order of the records\<close>

lemma compare_events_strict: "strict_order compare_events"
  unfolding strict_order_def compare_events_def
proof (intro conjI allI impI)
  fix a b :: Point
  assume "a \<noteq> b"
  then have "x_position a \<noteq> x_position b \<or> y_position a \<noteq> y_position b"
    by (cases a; cases b) auto
  then show "(if y_position a = y_position b then x_position a < x_position b
              else y_position a > y_position b)
           \<or> (if y_position b = y_position a then x_position b < x_position a
              else y_position b > y_position a)"
    by auto
qed (auto split: if_splits)

lemma compare_events_trans: "\<forall>x y z. compare_events x y \<longrightarrow> compare_events y z \<longrightarrow> compare_events x z"
  using compare_events_strict unfolding strict_order_def by blast

lemma event_equals_eq: "event_equals a b = (a = b)"
  by (cases a; cases b) (auto simp: event_equals_def)

lemma find_new_event_ok:
  assumes "find_new_event s l r p = Inr s'" "queue_after p (event_queue s)"
  shows "queue_after p (event_queue s')"
proof (cases "line_intersection (line_objs s ! l) (line_objs s ! r)")
  case NoValue
  then show ?thesis using assms by (simp add: find_new_event_def)
next
  case NonePair
  then show ?thesis using assms by (simp add: find_new_event_def)
next
  case (Coordinates i0 i1)
  define ip where "ip = \<lparr>x_position = i0, y_position = i1\<rparr>"
  show ?thesis
  proof (cases "i1 < y_position p \<or> (i1 = y_position p \<and> i0 > x_position p)")
    case False
    then show ?thesis using assms Coordinates
      by (auto simp: find_new_event_def split: if_splits)
  next
    case True
    then have cp: "compare_events p ip" by (auto simp: compare_events_def ip_def)
    from assms(1) Coordinates True
    consider (same) "s' = s"
      | (ins) q where "AvlTree_is_in (event_queue s) ip = Inr False"
          "AvlTree_insert (event_queue s) (ip, ip) = Inr q" "s' = s\<lparr>event_queue := q\<rparr>"
      by (auto simp: find_new_event_def Let_def ip_def split: sum.splits bool.splits)
    then show ?thesis
    proof cases
      case same
      then show ?thesis using assms(2) by simp
    next
      case ins
      from assms(2) obtain t where t: "tree_inv compare_events event_equals (event_queue s) t"
        "\<forall>(k, v)\<in>pairs_of (event_queue s) t. v = k \<and> compare_events p k"
        by (auto simp: queue_after_def)
      from AvlTree_is_in_ok[OF compare_events_strict event_equals_eq ins(1) t(1)]
      have fresh: "\<forall>x\<in>set_tree t. key (objs (event_queue s) x) \<noteq> ip" .
      from AvlTree_insert_ok[OF compare_events_strict event_equals_eq ins(2) t(1) fresh]
      obtain t' where "tree_inv compare_events event_equals q t'"
        "pairs_of q t' = insert (ip, ip) (pairs_of (event_queue s) t)" by blast
      then show ?thesis using t(2) cp ins(3)
        by (auto simp: queue_after_def intro!: exI[of _ t'])
    qed
  qed
qed

lemma new_events_cases:
  assumes ne: "new_events s p u c uc = Inr s'"
  shows "s' = s \<or> (\<exists>l r. find_new_event s l r p = Inr s')
    \<or> (\<exists>lnb ls s1 rnb rs. neighbor_event s lnb ls p = Inr s1 \<and> neighbor_event s1 rnb rs p = Inr s')"
proof (cases "length (u @ c) = 0")
  case True
  then have "new_events s p u c uc = (case AvlTree_find_neighbors (status_structure s) (x_position p) of
           Inl e \<Rightarrow> Inl e
         | Inr (Some left_segment, Some right_segment) \<Rightarrow>
             find_new_event s left_segment right_segment p
         | Inr other \<Rightarrow> Inr s)"
    unfolding new_events_def by (rule if_P)
  with ne show ?thesis
    by (auto split: sum.splits option.splits prod.splits)
next
  case False
  have "uc \<noteq> []"
  proof
    assume "uc = []"
    with ne False show False by (auto simp: new_events_def split: if_splits)
  qed
  then obtain first others where uc: "uc = first # others" by (cases uc) auto
  define ls where "ls = fst (extremes s u c first)"
  define rs where "rs = fst (snd (snd (extremes s u c first)))"
  have body: "(case AvlTree_find_left_neighbor_by_pair (status_structure s) (line_key s ls) ls of
       Inl e \<Rightarrow> Inl e
     | Inr lnb \<Rightarrow>
         (case neighbor_event s lnb ls p of
            Inl e \<Rightarrow> Inl e
          | Inr s1 \<Rightarrow>
              (case AvlTree_find_right_neighbor_by_pair (status_structure s1) (line_key s1 rs) rs of
                 Inl e \<Rightarrow> Inl e
               | Inr rnb \<Rightarrow> neighbor_event s1 rnb rs p))) = Inr s'"
    using ne False unfolding uc ls_def rs_def
    by (auto simp: new_events_def Let_def split: if_splits)
  then obtain lnb where lnb: "(case neighbor_event s lnb ls p of
            Inl e \<Rightarrow> Inl e
          | Inr s1 \<Rightarrow>
              (case AvlTree_find_right_neighbor_by_pair (status_structure s1) (line_key s1 rs) rs of
                 Inl e \<Rightarrow> Inl e
               | Inr rnb \<Rightarrow> neighbor_event s1 rnb rs p)) = Inr s'"
    by (cases "AvlTree_find_left_neighbor_by_pair (status_structure s) (line_key s ls) ls") simp_all
  then obtain s1 where s1: "neighbor_event s lnb ls p = Inr s1"
    "(case AvlTree_find_right_neighbor_by_pair (status_structure s1) (line_key s1 rs) rs of
                 Inl e \<Rightarrow> Inl e
               | Inr rnb \<Rightarrow> neighbor_event s1 rnb rs p) = Inr s'"
    by (cases "neighbor_event s lnb ls p") simp_all
  then obtain rnb where rnb: "neighbor_event s1 rnb rs p = Inr s'"
    by (cases "AvlTree_find_right_neighbor_by_pair (status_structure s1) (line_key s1 rs) rs") simp_all
  show ?thesis
    using s1(1) rnb by blast
qed

lemma neighbor_event_ok:
  assumes "neighbor_event s nb seg p = Inr s'" "queue_after p (event_queue s)"
  shows "queue_after p (event_queue s')"
  using assms find_new_event_ok
  by (auto simp: neighbor_event_def split: option.splits if_splits)

lemma new_events_ok:
  assumes ne: "new_events s p u c uc = Inr s'" and qa: "queue_after p (event_queue s)"
  shows "queue_after p (event_queue s')"
  using new_events_cases[OF ne] qa find_new_event_ok neighbor_event_ok by blast

lemma rekey_status_queue: "rekey_status s = Some (Inr s1) \<Longrightarrow> event_queue s1 = event_queue s"
  by (auto simp: rekey_status_def split: option.splits sum.splits)

lemma classify_queue:
  "classify s p segs acc = Inr (res, s2) \<Longrightarrow> event_queue s2 = event_queue s"
proof (induction segs arbitrary: s acc)
  case Nil
  then show ?case by simp
next
  case (Cons seg segs)
  obtain u l c where acc: "acc = (u, l, c)" by (cases acc)
  from Cons.prems acc
  consider s1 acc1 where "classify s1 p segs acc1 = Inr (res, s2)" "event_queue s1 = event_queue s"
    by (auto split: if_splits sum.splits)
  then show ?case using Cons.IH by cases auto
qed

lemma handle_event_points_ok:
  assumes h: "handle_event_points s p segs ints = Some (Inr (s', ints'))"
    and qa: "queue_after p (event_queue s)"
  shows "queue_after p (event_queue s') \<and> (ints' = ints \<or> (\<exists>ps. ints' = ints @ [(p, ps)]))"
proof -
  obtain s1 where rk: "rekey_status (s\<lparr>sweepline_position := y_position p\<rparr>) = Some (Inr s1)"
    using h by (auto simp: handle_event_points_def split: option.splits sum.splits)
  obtain u l c s2 where cl: "classify s1 p segs ([], [], []) = Inr ((u, l, c), s2)"
    using h rk by (auto simp: handle_event_points_def split: sum.splits)
  define s3 where "s3 = s2\<lparr>sweepline_position := sweepline_position s2 - 1 / 100\<rparr>"
  obtain uc ls where so: "sort_by_sweepline_order (sweepline_position s3) (line_objs s3) (u @ c) = (uc, ls)"
    by (cases "sort_by_sweepline_order (sweepline_position s3) (line_objs s3) (u @ c)")
  define s4 where "s4 = s3\<lparr>line_objs := ls\<rparr>"
  obtain t where il: "snd (AvlTree_insert_list (status_structure s4)
        (map (\<lambda>segment. (order (line_objs s4 ! segment), segment)) uc)) = Inr t"
    using h rk cl so by (auto simp: handle_event_points_def Let_def s3_def s4_def split: sum.splits)
  define s5 where "s5 = s4\<lparr>status_structure := t\<rparr>"
  obtain s6 where nev: "new_events s5 p u c uc = Inr s6"
    and res: "s' = s6\<lparr>sweepline_position := y_position p\<rparr>"
      "ints' = (if length (uc @ l) > 1 then ints @ [(p, uc @ l)] else ints)"
    using h rk cl so il
    by (auto simp: handle_event_points_def Let_def s3_def s4_def s5_def split: sum.splits)
  have "event_queue s5 = event_queue s"
    using rekey_status_queue[OF rk] classify_queue[OF cl] by (simp add: s5_def s4_def s3_def)
  with qa have "queue_after p (event_queue s5)" by simp
  from new_events_ok[OF nev this] res show ?thesis by auto
qed

lemma sweep_order_compare: "sweep_order r r' = compare_events (fst r) (fst r')"
  by (auto simp: sweep_order_def compare_events_def)

lemma event_loop_sorted:
  "event_loop s segs ints = Some res \<Longrightarrow>
    sweep_inv s ints \<longrightarrow>
      (\<forall>records s'. res = Inr (records, s') \<longrightarrow> sorted_wrt sweep_order records)"
proof (induction rule: event_loop.raw_induct[rotated, consumes 1])
  case (1 loop s segs ints res)
  show ?case
  proof (intro impI, cases "root_node (event_queue s) = None")
    case True
    assume inv: "sweep_inv s ints"
    from True have "res = Inr (ints, s)" using 1(2) by simp
    moreover have "sorted_wrt sweep_order ints"
      using inv sweep_order_compare unfolding sweep_inv_def
      by (auto intro: sorted_wrt_mono_rel[rotated])
    ultimately show "\<forall>records s'. res = Inr (records, s') \<longrightarrow> sorted_wrt sweep_order records"
      by simp
  next
    case False
    assume inv: "sweep_inv s ints"
    show "\<forall>records s'. res = Inr (records, s') \<longrightarrow> sorted_wrt sweep_order records"
    proof (intro allI impI)
      fix records s'
      assume res: "res = Inr (records, s')"
      from 1(2) False res obtain p q s1 ints1 where
        pop: "AvlTree_pop_lowest (event_queue s) = Inr (Some p, q)"
        and h: "handle_event_points (s\<lparr>event_queue := q\<rparr>) p segs ints = Some (Inr (s1, ints1))"
        and rec: "loop s1 segs ints1 = Some res"
        by (auto split: sum.splits option.splits prod.splits)
      from inv obtain t where t: "tree_inv compare_events event_equals (event_queue s) t"
        "\<forall>(k, v)\<in>pairs_of (event_queue s) t. v = k"
        "sorted_wrt (\<lambda>r r'. compare_events (fst r) (fst r')) ints"
        "\<forall>r\<in>set ints. \<forall>(k, v)\<in>pairs_of (event_queue s) t. compare_events (fst r) k"
        unfolding sweep_inv_def by blast
      from AvlTree_pop_lowest_ok[OF compare_events_trans pop t(1) False]
      obtain k t1 where k: "(k, p) \<in> pairs_of (event_queue s) t"
        "tree_inv compare_events event_equals q t1"
        "pairs_of q t1 \<subseteq> pairs_of (event_queue s) t"
        "\<forall>(k', v')\<in>pairs_of q t1. compare_events k k'"
        by auto
      have kp: "k = p" using k(1) t(2) by auto
      have before: "\<forall>r\<in>set ints. compare_events (fst r) p"
        using t(4) k(1) kp by auto
      have "queue_after p (event_queue (s\<lparr>event_queue := q\<rparr>))"
        unfolding queue_after_def using k(2,3,4) t(2) kp
        by (intro exI[of _ t1]) auto
      from handle_event_points_ok[OF h this]
      obtain t2 where t2: "tree_inv compare_events event_equals (event_queue s1) t2"
        "\<forall>(k, v)\<in>pairs_of (event_queue s1) t2. v = k \<and> compare_events p k"
        and ints1: "ints1 = ints \<or> (\<exists>ps. ints1 = ints @ [(p, ps)])"
        unfolding queue_after_def by blast
      have s1: "sorted_wrt (\<lambda>r r'. compare_events (fst r) (fst r')) ints1"
        using ints1 t(3) before by (auto simp: sorted_wrt_append)
      have b1: "\<forall>r\<in>set ints1. \<forall>(k, v)\<in>pairs_of (event_queue s1) t2. compare_events (fst r) k"
      proof (intro ballI)
        fix r kv assume r: "r \<in> set ints1" and kv: "kv \<in> pairs_of (event_queue s1) t2"
        obtain k' v' where kv': "kv = (k', v')" by (cases kv)
        have pk: "compare_events p k'" using t2(2) kv kv' by auto
        have "fst r = p \<or> compare_events (fst r) p" using r ints1 before by auto
        then have "compare_events (fst r) k'"
          using pk compare_events_trans by blast
        then show "case kv of (k, v) \<Rightarrow> compare_events (fst r) k" using kv' by simp
      qed
      have "sweep_inv s1 ints1"
        unfolding sweep_inv_def using t2 s1 b1 by (intro exI[of _ t2]) auto
      from 1(1)[OF rec] this res show "sorted_wrt sweep_order records" by simp
    qed
  qed
qed

lemma event_point_factory_distinct: "distinct (event_point_factory lines)"
  unfolding event_point_factory_def
  by (rule distinct_map[THEN iffD2]) (auto intro!: inj_onI)

text \<open>
  Claim C2.  For every list of input segments, the records returned by
  \<^verbatim>\<open>search_intersections\<close> are in sweep order: of two records, the one emitted first has
  the point with the strictly greater y, or with equal y and strictly smaller x.
\<close>

theorem records_in_sweep_order:
  "search_intersections lines = Some (Inr (records, s)) \<Longrightarrow>
     sorted_wrt
       (\<lambda>r r'. y_position (fst r) > y_position (fst r')
          \<or> (y_position (fst r) = y_position (fst r') \<and> x_position (fst r) < x_position (fst r')))
       records"
proof -
  assume run: "search_intersections lines = Some (Inr (records, s))"
  define es where "es = map (\<lambda>event_point. (event_point, event_point)) (event_point_factory lines)"
  obtain q where q: "snd (AvlTree_init es (Some compare_events) (Some event_equals)) = Inr q"
    using run unfolding search_intersections_def find_intersections_def es_def
    by (cases "snd (AvlTree_init (map (\<lambda>event_point. (event_point, event_point))
          (event_point_factory lines)) (Some compare_events) (Some event_equals))") simp_all
  obtain t0 where t0: "snd (AvlTree_init ([] :: (rat \<times> line_ref) list) None None) = Inr t0"
    by (simp add: AvlTree_init_def)
  have loop: "event_loop \<lparr>status_structure = t0, event_queue = q, sweepline_position = 0,
        line_objs = line_factory lines\<rparr> [0..<length (line_factory lines)] [] = Some (Inr (records, s))"
    using run q t0 unfolding search_intersections_def find_intersections_def es_def by simp
  have "distinct (map fst es)"
    using event_point_factory_distinct[of lines] by (simp add: es_def comp_def)
  from AvlTree_init_ok[OF compare_events_strict event_equals_eq q this]
  obtain t where t: "tree_inv compare_events event_equals q t" "pairs_of q t = set es" by blast
  have "sweep_inv \<lparr>status_structure = t0, event_queue = q, sweepline_position = 0,
        line_objs = line_factory lines\<rparr> []"
    unfolding sweep_inv_def using t by (intro exI[of _ t]) (auto simp: es_def)
  with event_loop_sorted[OF loop] have "sorted_wrt sweep_order records" by simp
  then show ?thesis by (simp add: sweep_order_def[abs_def])
qed

text \<open>A run with two records, at \<open>(2, 2)\<close> and then at \<open>(1, 1)\<close>.\<close>

lemma three_segments_run:
  "map_option (map_sum id (\<lambda>r. map fst (fst r)))
     (search_intersections [((0, 0), (2, 2)), ((0, 2), (2, 0)), ((2, 2), (3, 0))])
   = Some (Inr [\<lparr>x_position = 2, y_position = 2\<rparr>, \<lparr>x_position = 1, y_position = 1\<rparr>])"
  by code_simp

theorem records_in_sweep_order_witness:
  "\<exists>records s.
     search_intersections [((0, 0), (2, 2)), ((0, 2), (2, 0)), ((2, 2), (3, 0))]
       = Some (Inr (records, s))
     \<and> map fst records = [\<lparr>x_position = 2, y_position = 2\<rparr>, \<lparr>x_position = 1, y_position = 1\<rparr>]
     \<and> sorted_wrt
          (\<lambda>r r'. y_position (fst r) > y_position (fst r')
             \<or> (y_position (fst r) = y_position (fst r') \<and> x_position (fst r) < x_position (fst r')))
          records"
proof -
  obtain records s where run:
    "search_intersections [((0, 0), (2, 2)), ((0, 2), (2, 0)), ((2, 2), (3, 0))] = Some (Inr (records, s))"
    and pts: "map fst records = [\<lparr>x_position = 2, y_position = 2\<rparr>, \<lparr>x_position = 1, y_position = 1\<rparr>]"
    using three_segments_run
    by (cases "search_intersections [((0, 0), (2, 2)), ((0, 2), (2, 0)), ((2, 2), (3, 0))]")
       (auto simp: map_sum_def split: sum.splits)
  have srt: "sorted_wrt
          (\<lambda>r r'. y_position (fst r) > y_position (fst r')
             \<or> (y_position (fst r) = y_position (fst r') \<and> x_position (fst r) < x_position (fst r')))
          records"
    by (rule records_in_sweep_order[OF run])
  show ?thesis
    by (intro exI[of _ records] exI[of _ s] conjI run pts srt)
qed

end
